theory Spec2Isabelle
  imports Main "HOL-Library.Sublist" "HOL-Library.Char_ord" "HOL-Library.List_Lexorder"
    "HOL-Library.Product_Lexorder"
begin

section \<open>Python strings\<close>

text \<open>
  A Python \<open>str\<close> is modelled as a \<open>string\<close>: a list of characters, each character one
  code point below 256. The functions of this section are the methods of \<open>str\<close> that
  \<open>tools/doc_mcp.py\<close> calls, restricted to that range of code points.
\<close>

definition isspace :: "char \<Rightarrow> bool" where
  \<comment> \<open>\<open>str.isspace\<close>, which is also the class \<open>\s\<close> of \<open>re\<close> on a \<open>str\<close> pattern\<close>
  "isspace c =
     (let n = (of_char c :: nat)
      in (9 \<le> n \<and> n \<le> 13) \<or> (28 \<le> n \<and> n \<le> 32) \<or> n = 133 \<or> n = 160)"

definition strip :: "string \<Rightarrow> string" where
  \<comment> \<open>\<open>s.strip()\<close>\<close>
  "strip s = rev (dropWhile isspace (rev (dropWhile isspace s)))"

definition lstrip_chars :: "string \<Rightarrow> string \<Rightarrow> string" where
  \<comment> \<open>\<open>s.lstrip(chars)\<close>\<close>
  "lstrip_chars chars s = dropWhile (\<lambda>c. c \<in> set chars) s"

definition lower_char :: "char \<Rightarrow> char" where
  "lower_char c =
     (let n = (of_char c :: nat)
      in if (65 \<le> n \<and> n \<le> 90) \<or> (192 \<le> n \<and> n \<le> 222 \<and> n \<noteq> 215)
         then char_of (n + 32) else c)"

definition lower :: "string \<Rightarrow> string" where
  \<comment> \<open>\<open>s.lower()\<close>\<close>
  "lower s = map lower_char s"

fun contains :: "string \<Rightarrow> string \<Rightarrow> bool" where
  \<comment> \<open>\<open>contains sub s\<close> is Python's \<open>sub in s\<close>\<close>
  "contains sub [] = (sub = [])"
| "contains sub (c # cs) = (prefix sub (c # cs) \<or> contains sub cs)"

definition startswith :: "string \<Rightarrow> string \<Rightarrow> bool" where
  \<comment> \<open>\<open>s.startswith(p)\<close>\<close>
  "startswith s p = prefix p s"

definition endswith :: "string \<Rightarrow> string \<Rightarrow> bool" where
  \<comment> \<open>\<open>s.endswith(p)\<close>\<close>
  "endswith s p = suffix p s"

fun join :: "string \<Rightarrow> string list \<Rightarrow> string" where
  \<comment> \<open>\<open>sep.join(xs)\<close>\<close>
  "join sep [] = []"
| "join sep [x] = x"
| "join sep (x # y # ys) = x @ sep @ join sep (y # ys)"

definition is_linebreak :: "char \<Rightarrow> bool" where
  \<comment> \<open>the line boundaries of \<open>str.splitlines\<close> below code point 256\<close>
  "is_linebreak c =
     (let n = (of_char c :: nat)
      in (10 \<le> n \<and> n \<le> 13) \<or> (28 \<le> n \<and> n \<le> 30) \<or> n = 133)"

fun splitlines :: "string \<Rightarrow> string list" where
  \<comment> \<open>\<open>s.splitlines()\<close>: the breaks are dropped, \<open>\r\n\<close> is one break, and a final break
      opens no empty last line\<close>
  "splitlines [] = []"
| "splitlines (c # cs) =
     (if is_linebreak c then
        (case cs of
           [] \<Rightarrow> [[]]
         | d # ds \<Rightarrow>
             if c = CHR 0x0D \<and> d = CHR 0x0A then [] # splitlines ds
             else [] # splitlines (d # ds))
      else
        (case splitlines cs of
           [] \<Rightarrow> [[c]]
         | l # ls \<Rightarrow> (c # l) # ls))"

fun str_nat :: "nat \<Rightarrow> string" where
  \<comment> \<open>\<open>str(n)\<close> of a non-negative integer\<close>
  "str_nat n =
     (if n < 10 then [char_of (48 + n)]
      else str_nat (n div 10) @ [char_of (48 + n mod 10)])"

declare str_nat.simps [simp del]

section \<open>The heading pattern\<close>

text \<open>
  \<open>re.match(r'^(#{1,6})\s+(.+)$', s)\<close>. The matcher tries the greedy choices in the order
  of the backtracking engine: the longest run of one to six \<open>#\<close> first, then the longest
  run of white space, and the rest (\<open>.+\<close> takes no line feed, \<open>$\<close> stands at the end or
  before a last line feed). The result is the pair of the two groups.
\<close>

definition rest_match :: "string \<Rightarrow> string option" where
  \<comment> \<open>\<open>(.+)$\<close> at the start of \<open>r\<close>\<close>
  "rest_match r =
     (let t = takeWhile (\<lambda>c. c \<noteq> CHR 0x0A) r; u = drop (length t) r
      in if t \<noteq> [] \<and> (u = [] \<or> u = [CHR 0x0A]) then Some t else None)"

fun space_match :: "nat \<Rightarrow> string \<Rightarrow> string option" where
  \<comment> \<open>\<open>\s+(.+)$\<close>, trying \<open>j\<close> white-space characters first, then fewer\<close>
  "space_match 0 r = None"
| "space_match (Suc j) r =
     (if length r \<ge> Suc j \<and> list_all isspace (take (Suc j) r) then
        (case rest_match (drop (Suc j) r) of
           Some t \<Rightarrow> Some t
         | None \<Rightarrow> space_match j r)
      else space_match j r)"

fun hash_match :: "nat \<Rightarrow> string \<Rightarrow> (string \<times> string) option" where
  \<comment> \<open>the whole pattern, trying \<open>k\<close> characters \<open>#\<close> first, then fewer\<close>
  "hash_match 0 s = None"
| "hash_match (Suc k) s =
     (if length s \<ge> Suc k \<and> list_all (\<lambda>c. c = CHR ''#'') (take (Suc k) s) then
        (case space_match (length s - Suc k) (drop (Suc k) s) of
           Some t \<Rightarrow> Some (take (Suc k) s, t)
         | None \<Rightarrow> hash_match k s)
      else hash_match k s)"

definition heading_match :: "string \<Rightarrow> (string \<times> string) option" where
  "heading_match s = hash_match 6 s"

section \<open>The outline\<close>

record outline_node =
  node_id :: string
  title :: string
  level :: nat
  line_start :: nat

definition bump_counters :: "nat \<Rightarrow> nat list \<Rightarrow> nat list" where
  \<comment> \<open>\<open>counters[level] += 1\<close>, then \<open>counters[j] = 0\<close> for \<open>j\<close> in \<open>range(level + 1, 7)\<close>\<close>
  "bump_counters lv cs =
     fold (\<lambda>j c. c[j := 0]) [lv + 1 ..< 7] (cs[lv := cs ! lv + 1])"

definition make_id :: "nat \<Rightarrow> nat list \<Rightarrow> string" where
  \<comment> \<open>\<open>".".join([str(c) for c in counters[1:level+1]])\<close>\<close>
  "make_id lv cs = join ''.'' (map str_nat (take lv (drop 1 cs)))"

fun outline_loop :: "nat \<Rightarrow> string list \<Rightarrow> nat list \<Rightarrow> outline_node list" where
  \<comment> \<open>the loop of \<open>_get_outline_tree\<close> from line index \<open>i\<close> on, with the counters \<open>cs\<close>\<close>
  "outline_loop i [] cs = []"
| "outline_loop i (l # ls) cs =
     (case heading_match (strip l) of
        None \<Rightarrow> outline_loop (Suc i) ls cs
      | Some (h, t) \<Rightarrow>
          (let lv = length h;
               cs' = bump_counters lv cs
           in \<lparr>node_id = make_id lv cs', title = strip t, level = lv, line_start = i + 1\<rparr>
              # outline_loop (Suc i) ls cs'))"

definition get_outline_tree :: "string \<Rightarrow> outline_node list" where
  "get_outline_tree content = outline_loop 0 (splitlines content) (replicate 7 0)"

section \<open>Locating and replacing a section\<close>

text \<open>
  The messages that the tools return, one constructor for each message text of the source,
  with the values the text is formatted from.
\<close>

datatype path_error =
    PathTraversal string
  | OutOfBounds string
  | AmbiguousPath string "string list"

datatype message =
    NotExists string
  | Appended
  | LockMismatch string string string
  | SectionNotFound string
  | Updated string string int nat
  | PathError path_error
  | UpdateFailed
  | NoHistory
  | Changes string
  | ViewFailed

record scan_state =
  update_start :: int
  update_end :: int
  counters :: "nat list"
  target_found :: bool
  current_level :: nat

definition scan_init :: scan_state where
  "scan_init =
     \<lparr>update_start = - 1, update_end = - 1, counters = replicate 7 0,
      target_found = False, current_level = 0\<rparr>"

fun scan_loop :: "string \<Rightarrow> string \<Rightarrow> nat \<Rightarrow> string list \<Rightarrow> scan_state \<Rightarrow> string + scan_state" where
  \<comment> \<open>the loop of \<open>update_knowledge_section\<close> from line index \<open>i\<close> on; \<open>Inl title\<close> is the
      return from inside the loop when the dual lock fails, \<open>Inr\<close> the state after the loop\<close>
  "scan_loop nid expected i [] st = Inr st"
| "scan_loop nid expected i (l # ls) st =
     (case heading_match (strip l) of
        None \<Rightarrow> scan_loop nid expected (Suc i) ls st
      | Some (h, t) \<Rightarrow>
          (let lv = length h; ttl = strip t
           in if target_found st \<and> lv \<le> current_level st
              then Inr (st\<lparr>update_end := int i\<rparr>)
              else
                (let cs = bump_counters lv (counters st)
                 in if make_id lv cs = nid then
                      (if \<not> contains (strip (lower expected)) (strip (lower ttl))
                       then Inl ttl
                       else scan_loop nid expected (Suc i) ls
                              (st\<lparr>counters := cs, target_found := True,
                                  current_level := lv, update_start := int i\<rparr>))
                    else scan_loop nid expected (Suc i) ls (st\<lparr>counters := cs\<rparr>))))"

definition replace_section :: "string \<Rightarrow> string \<Rightarrow> string \<Rightarrow> string \<Rightarrow> message \<times> string option" where
  \<comment> \<open>steps 4 and 5 of \<open>update_knowledge_section\<close> on the text read from the file: the
      message, and the text written back when there is one\<close>
  "replace_section content nid expected new_content =
     (let lines = splitlines content
      in case scan_loop nid expected 0 lines scan_init of
           Inl ttl \<Rightarrow> (LockMismatch nid ttl expected, None)
         | Inr st \<Rightarrow>
             if \<not> target_found st then (SectionNotFound nid, None)
             else
               (let ue = (if update_end st = - 1 then int (length lines) else update_end st);
                    new_lines = splitlines new_content;
                    final_lines = take (nat (update_start st)) lines @ new_lines
                                  @ drop (nat ue) lines;
                    joined = join ''\<newline>'' final_lines;
                    final_content =
                      (if endswith content ''\<newline>'' \<and> \<not> endswith joined ''\<newline>''
                       then joined @ ''\<newline>'' else joined)
                in (Updated nid expected (ue - update_start st) (length new_lines),
                    Some final_content)))"

section \<open>Paths\<close>

text \<open>
  The functions of \<open>os.path\<close> (its POSIX flavour) that the source calls. The working
  directory of the process is a parameter; the source takes the knowledge root to be it
  (\<open>KNOWLEDGE_ROOT = "."\<close>).
\<close>

fun split_on :: "char \<Rightarrow> string \<Rightarrow> string list" where
  \<comment> \<open>\<open>s.split(c)\<close> for a separator of one character\<close>
  "split_on c [] = [[]]"
| "split_on c (x # xs) =
     (if x = c then [] # split_on c xs
      else (case split_on c xs of [] \<Rightarrow> [[x]] | l # ls \<Rightarrow> (x # l) # ls))"

definition replace_char :: "char \<Rightarrow> char \<Rightarrow> string \<Rightarrow> string" where
  \<comment> \<open>\<open>s.replace(a, b)\<close> for strings of one character\<close>
  "replace_char a b s = map (\<lambda>c. if c = a then b else c) s"

definition path_join :: "string \<Rightarrow> string \<Rightarrow> string" where
  \<comment> \<open>\<open>os.path.join(a, b)\<close>\<close>
  "path_join a b =
     (if startswith b ''/'' then b
      else if a = [] \<or> endswith a ''/'' then a @ b
      else a @ ''/'' @ b)"

definition basename :: "string \<Rightarrow> string" where
  \<comment> \<open>\<open>os.path.basename(p)\<close>\<close>
  "basename p = rev (takeWhile (\<lambda>c. c \<noteq> CHR ''/'') (rev p))"

definition norm_step :: "nat \<Rightarrow> string list \<Rightarrow> string \<Rightarrow> string list" where
  \<comment> \<open>the body of the loop of \<open>normpath\<close> over the components\<close>
  "norm_step initial_slashes new_comps c =
     (if c = [] \<or> c = ''.'' then new_comps
      else if c \<noteq> ''..'' \<or> (initial_slashes = 0 \<and> new_comps = [])
              \<or> (new_comps \<noteq> [] \<and> last new_comps = ''..'')
      then new_comps @ [c]
      else if new_comps \<noteq> [] then butlast new_comps
      else new_comps)"

definition initial_slashes :: "string \<Rightarrow> nat" where
  \<comment> \<open>the number of leading slashes that \<open>normpath\<close> keeps: two for exactly two, else one\<close>
  "initial_slashes p =
     (if startswith p ''/''
      then (if startswith p ''//'' \<and> \<not> startswith p ''///'' then 2 else 1)
      else 0)"

definition normpath :: "string \<Rightarrow> string" where
  \<comment> \<open>\<open>os.path.normpath(p)\<close>\<close>
  "normpath p =
     (if p = [] then ''.''
      else
        (let comps = fold (\<lambda>c new_comps. norm_step (initial_slashes p) new_comps c)
                       (split_on CHR ''/'' p) [];
             q = replicate (initial_slashes p) CHR ''/'' @ join ''/'' comps
         in if q = [] then ''.'' else q))"

definition abspath :: "string \<Rightarrow> string \<Rightarrow> string" where
  \<comment> \<open>\<open>os.path.abspath(p)\<close> in the working directory \<open>wd\<close>\<close>
  "abspath wd p = normpath (if startswith p ''/'' then p else path_join wd p)"

definition KNOWLEDGE_ROOT :: string where
  "KNOWLEDGE_ROOT = ''.''"

definition HISTORY_DIR :: string where
  "HISTORY_DIR = path_join KNOWLEDGE_ROOT ''.history''"

definition validate_path :: "string \<Rightarrow> string \<Rightarrow> path_error + string" where
  \<comment> \<open>\<open>_validate_path\<close>; \<open>Inl\<close> is the \<open>ValueError\<close> raised\<close>
  "validate_path wd path =
     (let clean_path = lstrip_chars [CHR ''/'', CHR 0x5C] (strip path)
      in if contains ''..'' clean_path then Inl (PathTraversal clean_path)
         else
           (let abs_root = abspath wd KNOWLEDGE_ROOT;
                abs_target = abspath wd (path_join KNOWLEDGE_ROOT clean_path)
            in if \<not> startswith abs_target abs_root then Inl (OutOfBounds clean_path)
               else Inr abs_target))"

section \<open>The file system\<close>

text \<open>
  The state of the program is the file system: the working directory, the regular files
  (absolute normalised path and stored text, in the order in which a directory walk meets
  them) and the directories that exist beyond the working directory and the ancestors of
  those files. The operations below take absolute paths; a relative path of the source
  goes through \<open>abspath\<close> first, as the operating system resolves it. A file opened in
  text mode is read with universal newlines and, under POSIX, written as it is.
\<close>

record fsys =
  cwd :: string
  files :: "(string \<times> string) list"
  dirs :: "string list"

definition dir_prefix :: "string \<Rightarrow> string" where
  "dir_prefix d = (if endswith d ''/'' then d else d @ ''/'')"

definition is_file :: "fsys \<Rightarrow> string \<Rightarrow> bool" where
  "is_file fs a = (map_of (files fs) a \<noteq> None)"

definition is_dir :: "fsys \<Rightarrow> string \<Rightarrow> bool" where
  "is_dir fs a =
     (a = ''/'' \<or> a \<in> set (cwd fs # dirs fs)
      \<or> list_ex (\<lambda>q. prefix (dir_prefix a) q) (map fst (files fs) @ cwd fs # dirs fs))"

definition path_exists :: "fsys \<Rightarrow> string \<Rightarrow> bool" where
  \<comment> \<open>\<open>os.path.exists\<close>\<close>
  "path_exists fs a = (is_file fs a \<or> is_dir fs a)"

definition write_file :: "string \<Rightarrow> string \<Rightarrow> fsys \<Rightarrow> fsys" where
  "write_file a txt fs =
     fs\<lparr>files :=
          (if map_of (files fs) a = None then files fs @ [(a, txt)]
           else map (\<lambda>(q, t). if q = a then (q, txt) else (q, t)) (files fs))\<rparr>"

fun universal_newlines :: "string \<Rightarrow> string" where
  \<comment> \<open>the translation of \<open>\r\n\<close> and \<open>\r\<close> to \<open>\n\<close> when a text file is read\<close>
  "universal_newlines [] = []"
| "universal_newlines (c # cs) =
     (if c = CHR 0x0D then
        (case cs of
           [] \<Rightarrow> [CHR 0x0A]
         | d # ds \<Rightarrow>
             if d = CHR 0x0A then CHR 0x0A # universal_newlines ds
             else CHR 0x0A # universal_newlines (d # ds))
      else c # universal_newlines cs)"

definition read_text :: "fsys \<Rightarrow> string \<Rightarrow> string option" where
  \<comment> \<open>\<open>open(a, 'r').read()\<close>; \<open>None\<close> when the open raises\<close>
  "read_text fs a = map_option universal_newlines (map_of (files fs) a)"

fun keepends :: "string \<Rightarrow> string list" where
  \<comment> \<open>the lines of a text, each with its line feed\<close>
  "keepends [] = []"
| "keepends (c # cs) =
     (if c = CHR 0x0A then [c] # keepends cs
      else (case keepends cs of [] \<Rightarrow> [[c]] | l # ls \<Rightarrow> (c # l) # ls))"

definition read_lines :: "fsys \<Rightarrow> string \<Rightarrow> string list option" where
  \<comment> \<open>\<open>open(a, 'r').readlines()\<close>\<close>
  "read_lines fs a = map_option keepends (read_text fs a)"

definition makedirs :: "string \<Rightarrow> fsys \<Rightarrow> fsys option" where
  \<comment> \<open>\<open>os.makedirs(a, exist_ok=True)\<close>; it raises when \<open>a\<close> or an ancestor is a regular file\<close>
  "makedirs a fs =
     (if list_ex (\<lambda>q. q = a \<or> prefix (dir_prefix q) a) (map fst (files fs)) then None
      else Some (fs\<lparr>dirs := (if a \<in> set (dirs fs) then dirs fs else dirs fs @ [a])\<rparr>))"

definition listdir :: "fsys \<Rightarrow> string \<Rightarrow> string list" where
  \<comment> \<open>\<open>os.listdir\<close> of an existing directory\<close>
  "listdir fs a =
     remdups (filter (\<lambda>n. n \<noteq> [])
       (map (\<lambda>q. takeWhile (\<lambda>c. c \<noteq> CHR ''/'') (drop (length (dir_prefix a)) q))
          (filter (prefix (dir_prefix a)) (map fst (files fs) @ dirs fs))))"

definition copy2 :: "string \<Rightarrow> string \<Rightarrow> fsys \<Rightarrow> fsys option" where
  \<comment> \<open>\<open>shutil.copy2(src, dst)\<close>: into \<open>dst\<close> when it is a directory; the stored text is
      copied as it is; \<open>None\<close> when it raises\<close>
  "copy2 src dst fs =
     (let dst' = (if is_dir fs dst then path_join dst (basename src) else dst)
      in case map_of (files fs) src of
           None \<Rightarrow> None
         | Some raw \<Rightarrow>
             if dst' = src \<or> is_dir fs dst' then None
             else Some (write_file dst' raw fs))"

section \<open>Resolving a path\<close>

definition dirname :: "string \<Rightarrow> string" where
  \<comment> \<open>the directory part of a relative path of a file, empty for a file of the root\<close>
  "dirname rel = rev (drop 1 (dropWhile (\<lambda>c. c \<noteq> CHR ''/'') (rev rel)))"

definition walk_candidates :: "fsys \<Rightarrow> string \<Rightarrow> string list" where
  \<comment> \<open>the loop of \<open>_smart_resolve_path\<close> over \<open>os.walk(KNOWLEDGE_ROOT)\<close>: a file \<open>rel\<close> under
      the root is met in the directory \<open>root = "./" + dirname\<close> (\<open>"."\<close> for the top)\<close>
  "walk_candidates fs target_name =
     (let top = dir_prefix (abspath (cwd fs) KNOWLEDGE_ROOT)
      in concat (map
           (\<lambda>q. let rel = drop (length top) q;
                    root = (if dirname rel = [] then KNOWLEDGE_ROOT
                            else path_join KNOWLEDGE_ROOT (dirname rel));
                    rel_dir = (if dirname rel = [] then ''.'' else dirname rel)
                in if contains ''.history'' root then []
                   else if basename rel = target_name then
                     (if rel_dir = ''.'' then [target_name]
                      else [replace_char (CHR 0x5C) CHR ''/'' (path_join rel_dir target_name)])
                   else [])
           (filter (prefix top) (map fst (files fs)))))"

definition smart_resolve_path :: "fsys \<Rightarrow> string \<Rightarrow> path_error + string" where
  \<comment> \<open>\<open>_smart_resolve_path\<close>; the \<open>ValueError\<close> of the exact match is passed over\<close>
  "smart_resolve_path fs path_query =
     (if (case validate_path (cwd fs) path_query of
            Inr abs_path \<Rightarrow> path_exists fs abs_path
          | Inl e \<Rightarrow> False)
      then Inr path_query
      else
        (let target_name = basename path_query;
             candidates = walk_candidates fs target_name
         in if length candidates = 1 then Inr (candidates ! 0)
            else if length candidates > 1 then Inl (AmbiguousPath path_query candidates)
            else Inr path_query))"

section \<open>Snapshots\<close>

definition ensure_history_dir :: "string \<Rightarrow> fsys \<Rightarrow> (string \<times> fsys) option" where
  \<comment> \<open>\<open>_ensure_history_dir\<close>; \<open>None\<close> when \<open>os.makedirs\<close> raises\<close>
  "ensure_history_dir file_path fs =
     (let safe_name = replace_char (CHR 0x5C) CHR ''_'' (replace_char CHR ''/'' CHR ''_'' file_path);
          target_dir = path_join HISTORY_DIR safe_name
      in map_option (\<lambda>fs'. (target_dir, fs')) (makedirs (abspath (cwd fs) target_dir) fs))"

definition create_snapshot :: "string \<Rightarrow> string \<Rightarrow> string \<Rightarrow> fsys \<Rightarrow> string option option \<times> fsys" where
  \<comment> \<open>\<open>_create_snapshot\<close> at the time stamp \<open>ts\<close> (\<open>datetime.now()\<close> formatted); the first
      component is \<open>None\<close> when a call raises, and the value returned otherwise\<close>
  "create_snapshot ts file_path abs_path fs =
     (if path_exists fs abs_path then
        (case ensure_history_dir file_path fs of
           None \<Rightarrow> (None, fs)
         | Some (history_dir, fs1) \<Rightarrow>
             (let snap_path = path_join history_dir (ts @ ''.snap'')
              in case copy2 abs_path (abspath (cwd fs1) snap_path) fs1 of
                   None \<Rightarrow> (None, fs1)
                 | Some fs2 \<Rightarrow> (Some (Some snap_path), fs2)))
      else (Some None, fs))"

section \<open>The unified diff of the library\<close>

text \<open>
  \<open>difflib.unified_diff(a, b, fromfile, tofile, lineterm="")\<close> of Python 3.11 with its
  \<open>SequenceMatcher(None, a, b)\<close>: no junk function, the automatic junk heuristic on. The
  set of junk elements is empty, so the two loops of \<open>find_longest_match\<close> that extend a
  match over junk never run and are left out.
\<close>

definition popular :: "string list \<Rightarrow> string \<Rightarrow> bool" where
  \<comment> \<open>the elements that \<open>__chain_b\<close> purges: more than \<open>n // 100 + 1\<close> occurrences in a
      sequence of at least 200 elements\<close>
  "popular b x = (length b \<ge> 200 \<and> length (filter (\<lambda>y. y = x) b) > length b div 100 + 1)"

definition b2j :: "string list \<Rightarrow> string \<Rightarrow> nat list" where
  \<comment> \<open>\<open>b2j.get(x, [])\<close>: the indices of \<open>x\<close> in \<open>b\<close>, ascending\<close>
  "b2j b x = (if popular b x then [] else filter (\<lambda>j. b ! j = x) [0 ..< length b])"

definition j2len_get :: "(nat \<times> nat) list \<Rightarrow> nat \<Rightarrow> nat" where
  \<comment> \<open>\<open>j2len.get(j - 1, 0)\<close>; the key \<open>-1\<close> is never there\<close>
  "j2len_get j2len j =
     (if j = 0 then 0 else (case map_of j2len (j - 1) of None \<Rightarrow> 0 | Some v \<Rightarrow> v))"

fun row_loop ::
  "nat \<Rightarrow> nat \<Rightarrow> nat \<Rightarrow> (nat \<times> nat) list \<Rightarrow> nat list
   \<Rightarrow> (nat \<times> nat \<times> nat) \<times> (nat \<times> nat) list \<Rightarrow> (nat \<times> nat \<times> nat) \<times> (nat \<times> nat) list" where
  \<comment> \<open>the inner loop of \<open>find_longest_match\<close> over the indices of \<open>a[i]\<close> in \<open>b\<close>; the
      state is the best match and \<open>newj2len\<close>\<close>
  "row_loop i blo bhi j2len [] st = st"
| "row_loop i blo bhi j2len (j # js) ((besti, bestj, bestsize), newj2len) =
     (if j < blo then row_loop i blo bhi j2len js ((besti, bestj, bestsize), newj2len)
      else if j \<ge> bhi then ((besti, bestj, bestsize), newj2len)
      else
        (let k = j2len_get j2len j + 1
         in row_loop i blo bhi j2len js
              (if k > bestsize then (i + 1 - k, j + 1 - k, k) else (besti, bestj, bestsize),
               (j, k) # newj2len)))"

fun dp_loop ::
  "string list \<Rightarrow> string list \<Rightarrow> nat \<Rightarrow> nat \<Rightarrow> nat list
   \<Rightarrow> (nat \<times> nat \<times> nat) \<times> (nat \<times> nat) list \<Rightarrow> nat \<times> nat \<times> nat" where
  \<comment> \<open>the outer loop of \<open>find_longest_match\<close> over the rows \<open>i\<close>\<close>
  "dp_loop a b blo bhi [] (best, j2len) = best"
| "dp_loop a b blo bhi (i # is) (best, j2len) =
     dp_loop a b blo bhi is (row_loop i blo bhi j2len (b2j b (a ! i)) (best, []))"

function extend_left ::
  "string list \<Rightarrow> string list \<Rightarrow> nat \<Rightarrow> nat \<Rightarrow> nat \<times> nat \<times> nat \<Rightarrow> nat \<times> nat \<times> nat" where
  "extend_left a b alo blo (besti, bestj, bestsize) =
     (if besti > alo \<and> bestj > blo \<and> a ! (besti - 1) = b ! (bestj - 1)
      then extend_left a b alo blo (besti - 1, bestj - 1, bestsize + 1)
      else (besti, bestj, bestsize))"
  by pat_completeness auto
termination
  by (relation "measure (\<lambda>(a, b, alo, blo, besti, bestj, bestsize). besti)") auto

function extend_right ::
  "string list \<Rightarrow> string list \<Rightarrow> nat \<Rightarrow> nat \<Rightarrow> nat \<times> nat \<times> nat \<Rightarrow> nat \<times> nat \<times> nat" where
  "extend_right a b ahi bhi (besti, bestj, bestsize) =
     (if besti + bestsize < ahi \<and> bestj + bestsize < bhi
         \<and> a ! (besti + bestsize) = b ! (bestj + bestsize)
      then extend_right a b ahi bhi (besti, bestj, bestsize + 1)
      else (besti, bestj, bestsize))"
  by pat_completeness auto
termination
  by (relation "measure (\<lambda>(a, b, ahi, bhi, besti, bestj, bestsize). ahi - (besti + bestsize))") auto

definition find_longest_match ::
  "string list \<Rightarrow> string list \<Rightarrow> nat \<Rightarrow> nat \<Rightarrow> nat \<Rightarrow> nat \<Rightarrow> nat \<times> nat \<times> nat" where
  "find_longest_match a b alo ahi blo bhi =
     extend_right a b ahi bhi
       (extend_left a b alo blo
          (dp_loop a b blo bhi [alo ..< ahi] ((alo, blo, 0), [])))"


function blocks ::
  "string list \<Rightarrow> string list \<Rightarrow> nat \<Rightarrow> nat \<Rightarrow> nat \<Rightarrow> nat \<Rightarrow> (nat \<times> nat \<times> nat) list" where
  \<comment> \<open>the queue loop of \<open>get_matching_blocks\<close>: the queue is a stack, so after a match the
      part to its right is worked off before the part to its left\<close>
  "blocks a b alo ahi blo bhi =
     (let x = find_longest_match a b alo ahi blo bhi;
          i = fst x; j = fst (snd x); k = snd (snd x)
      in if k = 0 then []
         else x # (if i + k < ahi \<and> j + k < bhi then blocks a b (i + k) ahi (j + k) bhi else [])
                @ (if alo < i \<and> blo < j then blocks a b alo i blo j else []))"
  by pat_completeness auto

fun collapse :: "nat \<times> nat \<times> nat \<Rightarrow> (nat \<times> nat \<times> nat) list \<Rightarrow> (nat \<times> nat \<times> nat) list" where
  \<comment> \<open>the loop of \<open>get_matching_blocks\<close> that merges adjacent blocks\<close>
  "collapse (i1, j1, k1) [] = (if k1 \<noteq> 0 then [(i1, j1, k1)] else [])"
| "collapse (i1, j1, k1) ((i2, j2, k2) # rest) =
     (if i1 + k1 = i2 \<and> j1 + k1 = j2 then collapse (i1, j1, k1 + k2) rest
      else (if k1 \<noteq> 0 then [(i1, j1, k1)] else []) @ collapse (i2, j2, k2) rest)"

definition get_matching_blocks :: "string list \<Rightarrow> string list \<Rightarrow> (nat \<times> nat \<times> nat) list" where
  "get_matching_blocks a b =
     collapse (0, 0, 0) (sort (blocks a b 0 (length a) 0 (length b))) @ [(length a, length b, 0)]"

datatype tag = Replace | Delete | Insert | Equal

type_synonym opcode = "tag \<times> nat \<times> nat \<times> nat \<times> nat"

fun opcodes_loop :: "nat \<Rightarrow> nat \<Rightarrow> (nat \<times> nat \<times> nat) list \<Rightarrow> opcode list" where
  "opcodes_loop i j [] = []"
| "opcodes_loop i j ((ai, bj, sz) # rest) =
     (if i < ai \<and> j < bj then [(Replace, i, ai, j, bj)]
      else if i < ai then [(Delete, i, ai, j, bj)]
      else if j < bj then [(Insert, i, ai, j, bj)]
      else [])
     @ (if sz \<noteq> 0 then [(Equal, ai, ai + sz, bj, bj + sz)] else [])
     @ opcodes_loop (ai + sz) (bj + sz) rest"

definition get_opcodes :: "string list \<Rightarrow> string list \<Rightarrow> opcode list" where
  "get_opcodes a b = opcodes_loop 0 0 (get_matching_blocks a b)"

definition fix_first :: "nat \<Rightarrow> opcode list \<Rightarrow> opcode list" where
  \<comment> \<open>\<open>if codes[0][0] == 'equal'\<close>: the leading equal run keeps its last \<open>n\<close> lines\<close>
  "fix_first n codes =
     (case codes of
        (Equal, i1, i2, j1, j2) # rest \<Rightarrow> (Equal, max i1 (i2 - n), i2, max j1 (j2 - n), j2) # rest
      | _ \<Rightarrow> codes)"

definition fix_last :: "nat \<Rightarrow> opcode list \<Rightarrow> opcode list" where
  \<comment> \<open>\<open>if codes[-1][0] == 'equal'\<close>: the trailing equal run keeps its first \<open>n\<close> lines\<close>
  "fix_last n codes =
     (if codes = [] then codes
      else (case last codes of
              (Equal, i1, i2, j1, j2) \<Rightarrow>
                butlast codes @ [(Equal, i1, min i2 (i1 + n), j1, min j2 (j1 + n))]
            | _ \<Rightarrow> codes))"

fun group_loop :: "nat \<Rightarrow> opcode list \<Rightarrow> opcode list \<Rightarrow> opcode list list" where
  "group_loop n [] grp =
     (if grp \<noteq> [] \<and> \<not> (length grp = 1 \<and> fst (hd grp) = Equal) then [grp] else [])"
| "group_loop n ((tg, i1, i2, j1, j2) # rest) grp =
     (if tg = Equal \<and> i2 - i1 > n + n
      then (grp @ [(tg, i1, min i2 (i1 + n), j1, min j2 (j1 + n))])
           # group_loop n rest [(tg, max i1 (i2 - n), i2, max j1 (j2 - n), j2)]
      else group_loop n rest (grp @ [(tg, i1, i2, j1, j2)]))"

definition get_grouped_opcodes :: "nat \<Rightarrow> string list \<Rightarrow> string list \<Rightarrow> opcode list list" where
  "get_grouped_opcodes n a b =
     (let codes = get_opcodes a b;
          codes = (if codes = [] then [(Equal, 0, 1, 0, 1)] else codes)
      in group_loop n (fix_last n (fix_first n codes)) [])"

definition format_range_unified :: "nat \<Rightarrow> nat \<Rightarrow> string" where
  "format_range_unified start stop =
     (let beginning = start + 1; len = stop - start
      in if len = 1 then str_nat beginning
         else str_nat (if len = 0 then beginning - 1 else beginning) @ '','' @ str_nat len)"

definition slice :: "'a list \<Rightarrow> nat \<Rightarrow> nat \<Rightarrow> 'a list" where
  \<comment> \<open>\<open>xs[i:j]\<close>\<close>
  "slice xs i j = take (j - i) (drop i xs)"

fun opcode_lines :: "string list \<Rightarrow> string list \<Rightarrow> opcode \<Rightarrow> string list" where
  "opcode_lines a b (tg, i1, i2, j1, j2) =
     (if tg = Equal then map (\<lambda>line. '' '' @ line) (slice a i1 i2)
      else (if tg = Replace \<or> tg = Delete then map (\<lambda>line. ''-'' @ line) (slice a i1 i2) else [])
         @ (if tg = Replace \<or> tg = Insert then map (\<lambda>line. ''+'' @ line) (slice b j1 j2) else []))"

definition hunk :: "string list \<Rightarrow> string list \<Rightarrow> opcode list \<Rightarrow> string list" where
  "hunk a b grp =
     (case (hd grp, last grp) of
        ((t1, f1, f2, f3, f4), (t2, l1, l2, l3, l4)) \<Rightarrow>
          (''@@ -'' @ format_range_unified f1 l2 @ '' +'' @ format_range_unified f3 l4 @ '' @@'')
          # concat (map (opcode_lines a b) grp))"

definition unified_diff :: "string list \<Rightarrow> string list \<Rightarrow> string \<Rightarrow> string \<Rightarrow> string list" where
  \<comment> \<open>three lines of context, no file dates, \<open>lineterm = ""\<close>\<close>
  "unified_diff a b fromfile tofile =
     (let groups = get_grouped_opcodes 3 a b
      in if groups = [] then []
         else [''--- '' @ fromfile, ''+++ '' @ tofile] @ concat (map (hunk a b) groups))"

definition snapshot_label :: "string \<Rightarrow> string" where
  \<comment> \<open>the label \<open>fromfile\<close> of the diff: a word for "snapshot" and the name of the snapshot
      in parentheses; the word of the source is outside the 8-bit characters of \<open>string\<close>
      and is written in English here\<close>
  "snapshot_label name = ''snapshot ('' @ name @ '')''"

definition current_label :: string where
  \<comment> \<open>the label \<open>tofile\<close> of the diff, the source's words for "current version"\<close>
  "current_label = ''current''"

section \<open>The tools\<close>

definition update_knowledge_section ::
  "string \<Rightarrow> string \<Rightarrow> string \<Rightarrow> string \<Rightarrow> string \<Rightarrow> fsys \<Rightarrow> message \<times> fsys" where
  \<comment> \<open>\<open>update_knowledge_section(path, node_id, expected_title, new_content)\<close> called at the
      time stamp \<open>ts\<close>\<close>
  "update_knowledge_section ts path nid expected new_content fs =
     (case smart_resolve_path fs path of
        Inl e \<Rightarrow> (PathError e, fs)
      | Inr resolved_path \<Rightarrow>
          (case validate_path (cwd fs) resolved_path of
             Inl e \<Rightarrow> (PathError e, fs)
           | Inr abs_path \<Rightarrow>
               if \<not> path_exists fs abs_path then (NotExists resolved_path, fs)
               else
                 (case create_snapshot ts resolved_path abs_path fs of
                    (None, fs1) \<Rightarrow> (UpdateFailed, fs1)
                  | (Some snap, fs1) \<Rightarrow>
                      (case read_text fs1 abs_path of
                         None \<Rightarrow> (UpdateFailed, fs1)
                       | Some content \<Rightarrow>
                           if nid = ''APPEND'' then
                             (case map_of (files fs1) abs_path of
                                None \<Rightarrow> (UpdateFailed, fs1)
                              | Some raw \<Rightarrow>
                                  (Appended,
                                   write_file abs_path (raw @ ''\<newline>\<newline>'' @ new_content) fs1))
                           else
                             (case replace_section content nid expected new_content of
                                (msg, None) \<Rightarrow> (msg, fs1)
                              | (msg, Some final_content) \<Rightarrow>
                                  (msg, write_file abs_path final_content fs1))))))"

definition view_doc_changes ::
  "string \<Rightarrow> fsys \<Rightarrow> message \<times> fsys" where
  "view_doc_changes path fs =
     (case smart_resolve_path fs path of
        Inl e \<Rightarrow> (ViewFailed, fs)
      | Inr resolved_path \<Rightarrow>
          (case validate_path (cwd fs) resolved_path of
             Inl e \<Rightarrow> (ViewFailed, fs)
           | Inr abs_path \<Rightarrow>
               (case ensure_history_dir resolved_path fs of
                  None \<Rightarrow> (ViewFailed, fs)
                | Some (history_dir, fs1) \<Rightarrow>
                    (let snaps = sort (filter (\<lambda>f. endswith f ''.snap'')
                                         (listdir fs1 (abspath (cwd fs1) history_dir)))
                     in if snaps = [] then (NoHistory, fs1)
                        else
                          (let latest_snap = path_join history_dir (last snaps)
                           in case read_lines fs1 (abspath (cwd fs1) latest_snap) of
                                None \<Rightarrow> (ViewFailed, fs1)
                              | Some old_lines \<Rightarrow>
                                  (case read_lines fs1 abs_path of
                                     None \<Rightarrow> (ViewFailed, fs1)
                                   | Some new_lines \<Rightarrow>
                                       (Changes (concat (unified_diff old_lines new_lines
                                                           (snapshot_label (last snaps))
                                                           current_label)),
                                        fs1)))))))"

section \<open>The specification's reading of the outline\<close>

definition bump_spec :: "nat \<Rightarrow> nat list \<Rightarrow> nat list" where
  \<comment> \<open>the counter of the level goes up by one, every counter of a deeper level is zero\<close>
  "bump_spec lv cs = take lv cs @ [cs ! lv + 1] @ replicate (6 - lv) 0"

fun ids_spec :: "nat list \<Rightarrow> nat list \<Rightarrow> string list" where
  \<comment> \<open>the ids of headings of the given levels, from the counters \<open>cs\<close> on: the counters of
      the levels 1 to the heading's level, joined with dots\<close>
  "ids_spec cs [] = []"
| "ids_spec cs (lv # lvs) =
     (let cs' = bump_spec lv cs
      in join ''.'' (map str_nat (take lv (tl cs'))) # ids_spec cs' lvs)"

definition heading_form_spec :: "string \<Rightarrow> bool" where
  \<comment> \<open>the text begins with one to six characters \<open>#\<close>, followed by white space and then by
      a text that is not empty\<close>
  "heading_form_spec s =
     (let k = length (takeWhile (\<lambda>c. c = CHR ''#'') s);
          r = drop k s;
          t = dropWhile isspace r
      in 1 \<le> k \<and> k \<le> 6 \<and> r \<noteq> [] \<and> isspace (hd r) \<and> t \<noteq> [])"

section \<open>The specification's reading of a section\<close>

definition find_section :: "string \<Rightarrow> string \<Rightarrow> outline_node option" where
  \<comment> \<open>the first heading of the outline whose id is \<open>nid\<close>\<close>
  "find_section content nid = find (\<lambda>n. node_id n = nid) (get_outline_tree content)"

definition section_end :: "string \<Rightarrow> outline_node \<Rightarrow> nat" where
  \<comment> \<open>the index of the line of the next heading after \<open>tg\<close> whose level is at most that of
      \<open>tg\<close>, or the number of lines when no such heading follows\<close>
  "section_end content tg =
     (case find (\<lambda>n. line_start tg < line_start n \<and> level n \<le> level tg)
             (get_outline_tree content) of
        None \<Rightarrow> length (splitlines content)
      | Some n \<Rightarrow> line_start n - 1)"

definition lock_holds :: "string \<Rightarrow> string \<Rightarrow> bool" where
  \<comment> \<open>the expected title, in lower case and trimmed, is a substring of the title, in lower
      case and trimmed\<close>
  "lock_holds expected ttl = contains (strip (lower expected)) (strip (lower ttl))"

definition spliced_lines :: "string \<Rightarrow> outline_node \<Rightarrow> string \<Rightarrow> string list" where
  \<comment> \<open>the lines of the document with those of the section of \<open>tg\<close> replaced by the lines
      of the new content\<close>
  "spliced_lines content tg new_content =
     take (line_start tg - 1) (splitlines content) @ splitlines new_content
     @ drop (section_end content tg) (splitlines content)"

section \<open>The document of a call\<close>

definition target_document :: "fsys \<Rightarrow> string \<Rightarrow> (string \<times> string \<times> string) option" where
  \<comment> \<open>the document that a call with the path \<open>path\<close> works on, when there is one: the
      resolved path, the validated absolute path and the stored text of the file\<close>
  "target_document fs path =
     (case smart_resolve_path fs path of
        Inl e \<Rightarrow> None
      | Inr resolved_path \<Rightarrow>
          (case validate_path (cwd fs) resolved_path of
             Inl e \<Rightarrow> None
           | Inr abs_path \<Rightarrow>
               map_option (\<lambda>raw. (resolved_path, abs_path, raw)) (map_of (files fs) abs_path)))"

definition snapshot_path :: "string \<Rightarrow> string \<Rightarrow> string" where
  \<comment> \<open>the path of the snapshot of the document \<open>file_path\<close> taken at \<open>ts\<close>\<close>
  "snapshot_path file_path ts =
     path_join
       (path_join HISTORY_DIR
          (replace_char (CHR 0x5C) CHR ''_'' (replace_char CHR ''/'' CHR ''_'' file_path)))
       (ts @ ''.snap'')"

section \<open>An example file system\<close>

definition example_fs :: fsys where
  \<comment> \<open>a knowledge root \<open>/kb\<close> with one document\<close>
  "example_fs =
     \<lparr>cwd = ''/kb'',
      files = [(''/kb/libs/a.md'', ''# A\<newline>x\<newline>## B\<newline>y\<newline>## C\<newline>z\<newline>'')],
      dirs = []\<rparr>"

definition example_fs_snap :: fsys where
  \<comment> \<open>\<open>example_fs\<close> after a snapshot of the document at \<open>20260101_000000\<close>\<close>
  "example_fs_snap =
     \<lparr>cwd = ''/kb'',
      files = [(''/kb/libs/a.md'', ''# A\<newline>x\<newline>## B\<newline>y\<newline>## C\<newline>z\<newline>''),
               (''/kb/.history/libs_a.md/20260101_000000.snap'',
                ''# A\<newline>x\<newline>## B\<newline>y\<newline>## C\<newline>z\<newline>'')],
      dirs = [''/kb/.history/libs_a.md'']\<rparr>"




section \<open>Frontmatter\<close>

text \<open>
  The values that \<open>yaml.safe_load\<close> returns; a Python \<open>dict\<close> with string keys is the list
  of its items in insertion order. The two functions of the YAML library are parameters
  of the model: \<open>dump m\<close> stands for \<open>yaml.dump(m, allow_unicode=True, sort_keys=False)\<close>
  and \<open>load s\<close> for \<open>yaml.safe_load(s)\<close>, with \<open>None\<close> when it raises.
\<close>

datatype yaml =
    YNull
  | YBool bool
  | YInt int
  | YStr string
  | YSeq "yaml list"
  | YMap "(string \<times> yaml) list"

definition falsy :: "yaml \<Rightarrow> bool" where
  \<comment> \<open>the values that count as false in \<open>x or {}\<close>\<close>
  "falsy v =
     (v = YNull \<or> v = YBool False \<or> v = YInt 0 \<or> v = YStr [] \<or> v = YSeq [] \<or> v = YMap [])"

fun split_at_first :: "string \<Rightarrow> string \<Rightarrow> (string \<times> string) option" where
  \<comment> \<open>the text before and the text after the first occurrence of \<open>sep\<close>\<close>
  "split_at_first sep [] = None"
| "split_at_first sep (c # cs) =
     (if prefix sep (c # cs) then Some ([], drop (length sep) (c # cs))
      else map_option (\<lambda>(a, r). (c # a, r)) (split_at_first sep cs))"

fun split_max :: "string \<Rightarrow> nat \<Rightarrow> string \<Rightarrow> string list" where
  \<comment> \<open>\<open>s.split(sep, n)\<close> for a separator that is not empty\<close>
  "split_max sep 0 s = [s]"
| "split_max sep (Suc n) s =
     (case split_at_first sep s of
        None \<Rightarrow> [s]
      | Some (a, r) \<Rightarrow> a # split_max sep n r)"

definition parse_frontmatter :: "(string \<Rightarrow> yaml option) \<Rightarrow> string \<Rightarrow> yaml \<times> string" where
  \<comment> \<open>\<open>_parse_frontmatter\<close>\<close>
  "parse_frontmatter load content =
     (if startswith content ''---'' then
        (let parts = split_max ''---'' 2 content
         in if length parts \<ge> 3 then
              (case load (parts ! 1) of
                 None \<Rightarrow> (YMap [], content)
               | Some v \<Rightarrow> (if falsy v then YMap [] else v, parts ! 2))
            else (YMap [], content))
      else (YMap [], content))"

definition build_frontmatter ::
  "((string \<times> yaml) list \<Rightarrow> string) \<Rightarrow> string \<Rightarrow> (string \<times> yaml) list \<Rightarrow> string" where
  \<comment> \<open>\<open>_build_frontmatter\<close> on the day \<open>today\<close> (\<open>datetime.now()\<close> formatted)\<close>
  "build_frontmatter dump today meta =
     (let meta' = (if ''last_updated'' \<notin> fst ` set meta
                   then meta @ [(''last_updated'', YStr today)] else meta);
          yaml_str = strip (dump meta')
      in ''---\<newline>'' @ yaml_str @ ''\<newline>---\<newline>'')"

definition example_dump :: "(string \<times> yaml) list \<Rightarrow> string" where
  \<comment> \<open>the text of \<open>yaml.dump\<close> for the two mappings of the examples\<close>
  "example_dump m =
     (if m = [(''title'', YStr ''Guide''), (''last_updated'', YStr ''2026-11-03'')]
      then ''title: Guide\<newline>last_updated: '2026-11-03'\<newline>''
      else if m = [(''title'', YStr ''a---b''), (''last_updated'', YStr ''2026-11-03'')]
      then ''title: a---b\<newline>last_updated: '2026-11-03'\<newline>''
      else [])"

definition example_load :: "string \<Rightarrow> yaml option" where
  \<comment> \<open>the value of \<open>yaml.safe_load\<close> for the three texts of the examples\<close>
  "example_load s =
     (if s = ''\<newline>title: Guide\<newline>last_updated: '2026-11-03'\<newline>''
      then Some (YMap [(''title'', YStr ''Guide''), (''last_updated'', YStr ''2026-11-03'')])
      else if s = ''\<newline>title: a---b\<newline>last_updated: '2026-11-03'\<newline>''
      then Some (YMap [(''title'', YStr ''a---b''), (''last_updated'', YStr ''2026-11-03'')])
      else if s = ''\<newline>title: a''
      then Some (YMap [(''title'', YStr ''a'')])
      else None)"

section \<open>The specification's reading of the sandbox\<close>

definition path_parts :: "string \<Rightarrow> string list" where
  \<comment> \<open>the components of a path: the texts between its slashes that are not empty\<close>
  "path_parts p = filter (\<lambda>c. c \<noteq> []) (split_on CHR ''/'' p)"

definition inside_root :: "string \<Rightarrow> string \<Rightarrow> bool" where
  \<comment> \<open>the path \<open>t\<close> is the root or lies under it: its components are those of the root
      followed by components none of which is \<open>..\<close> or \<open>.\<close>\<close>
  "inside_root root t =
     (prefix (path_parts root) (path_parts t)
      \<and> ''..'' \<notin> set (drop (length (path_parts root)) (path_parts t))
      \<and> ''.'' \<notin> set (drop (length (path_parts root)) (path_parts t)))"

definition example_fs_secret :: fsys where
  \<comment> \<open>a knowledge root \<open>/kb\<close> with a document \<open>secret.md\<close>\<close>
  "example_fs_secret =
     \<lparr>cwd = ''/kb'', files = [(''/kb/secret.md'', ''# S\<newline>'')], dirs = []\<rparr>"

section \<open>The history of a document\<close>

definition history_dir_of :: "string \<Rightarrow> string" where
  \<comment> \<open>the directory of the snapshots of the document \<open>file_path\<close>\<close>
  "history_dir_of file_path =
     path_join HISTORY_DIR
       (replace_char (CHR 0x5C) CHR ''_'' (replace_char CHR ''/'' CHR ''_'' file_path))"

section \<open>Runs of lines outside the popular ones\<close>

definition nonpopular_run :: "string list \<Rightarrow> nat \<Rightarrow> nat" where
  \<comment> \<open>the number of elements just before index \<open>i\<close> that are not popular, back to the
      nearest popular one\<close>
  "nonpopular_run a i = length (takeWhile (\<lambda>x. \<not> popular a x) (rev (take i a)))"

section \<open>Properties of the heading pattern and of the counters\<close>

lemma space_match_Some: "space_match j r = Some t \<Longrightarrow> t \<noteq> []"
  by (induction j) (auto simp: rest_match_def Let_def split: if_splits option.splits)

lemma hash_match_level:
  "hash_match k s = Some (h, t) \<Longrightarrow> 1 \<le> length h \<and> length h \<le> k"
  by (induction k) (auto split: if_splits option.splits)

lemma heading_match_level:
  "heading_match s = Some (h, t) \<Longrightarrow> 1 \<le> length h \<and> length h \<le> 6"
  unfolding heading_match_def by (rule hash_match_level)

lemma length7:
  assumes "length cs = 7"
  obtains a b c d e f g where "cs = [a, b, c, d, e, f, g :: nat]"
proof -
  from assms obtain a b c d e f g where "cs = [a, b, c, d, e, f, g]"
    by (auto simp: length_Suc_conv eval_nat_numeral)
  then show ?thesis using that by blast
qed

lemma upt_7_simps:
  "[2..<7] = [2,3,4,5,6::nat]" "[3..<7] = [3,4,5,6::nat]" "[4..<7] = [4,5,6::nat]"
  "[5..<7] = [5,6::nat]" "[6..<7] = [6::nat]" "[7..<7] = ([]::nat list)"
  by (simp_all add: upt_rec)

lemma bump_counters_spec:
  assumes "length cs = 7" "1 \<le> lv" "lv \<le> 6"
  shows "bump_counters lv cs = bump_spec lv cs"
proof -
  from assms(1) obtain a b c d e f g where cs: "cs = [a, b, c, d, e, f, g]"
    by (rule length7)
  from assms(2,3) consider "lv = 1" | "lv = 2" | "lv = 3" | "lv = 4" | "lv = 5" | "lv = 6"
    by arith
  then show ?thesis
    by cases (simp_all add: cs bump_counters_def bump_spec_def upt_7_simps eval_nat_numeral)
qed

lemma length_bump_counters [simp]: "length (bump_counters lv cs) = length cs"
proof -
  have "length (fold (\<lambda>j c. c[j := 0]) js c) = length c" for js and c :: "nat list"
    by (induction js arbitrary: c) auto
  then show ?thesis by (simp add: bump_counters_def)
qed

lemma outline_loop_ids:
  "length cs = 7 \<Longrightarrow>
   map node_id (outline_loop i ls cs) = ids_spec cs (map level (outline_loop i ls cs))"
proof (induction ls arbitrary: i cs)
  case Nil
  then show ?case by simp
next
  case (Cons l ls)
  show ?case
  proof (cases "heading_match (strip l)")
    case None
    then show ?thesis using Cons by simp
  next
    case (Some ht)
    obtain h t where ht: "ht = (h, t)" by (cases ht)
    from Some ht have lv: "1 \<le> length h" "length h \<le> 6"
      using heading_match_level by blast+
    have b: "bump_counters (length h) cs = bump_spec (length h) cs"
      using Cons.prems lv by (rule bump_counters_spec)
    have len: "length (bump_spec (length h) cs) = 7"
      using Cons.prems b length_bump_counters by metis
    show ?thesis
      using Some ht Cons.IH [OF len] b
      by (simp add: Let_def make_id_def drop_Suc)
  qed
qed

lemma isspace_hash [simp]: "\<not> isspace CHR ''#''"
  by (simp add: isspace_def)

lemma rest_match_nolf:
  "CHR 0x0A \<notin> set r \<Longrightarrow> rest_match r = (if r = [] then None else Some r)"
proof -
  assume a: "CHR 0x0A \<notin> set r"
  then have eq: "takeWhile (\<lambda>c. c \<noteq> CHR 0x0A) r = r"
    by (induction r) auto
  show ?thesis unfolding rest_match_def Let_def eq by simp
qed

lemma space_match_iff:
  "space_match n r \<noteq> None \<longleftrightarrow>
     (\<exists>j. 1 \<le> j \<and> j \<le> n \<and> j \<le> length r \<and> list_all isspace (take j r)
          \<and> rest_match (drop j r) \<noteq> None)"
proof (induction n)
  case 0
  then show ?case by simp
next
  case (Suc n)
  show ?case
  proof (cases "Suc n \<le> length r \<and> list_all isspace (take (Suc n) r)
                \<and> rest_match (drop (Suc n) r) \<noteq> None")
    case True
    then have "space_match (Suc n) r \<noteq> None" by (auto split: option.splits)
    moreover have "\<exists>j. 1 \<le> j \<and> j \<le> Suc n \<and> j \<le> length r \<and> list_all isspace (take j r)
          \<and> rest_match (drop j r) \<noteq> None"
      using True by (intro exI [of _ "Suc n"]) simp
    ultimately show ?thesis by blast
  next
    case False
    then have eq: "space_match (Suc n) r = space_match n r"
      by (auto split: option.splits)
    have "(\<exists>j. 1 \<le> j \<and> j \<le> Suc n \<and> j \<le> length r \<and> list_all isspace (take j r)
          \<and> rest_match (drop j r) \<noteq> None)
        \<longleftrightarrow> (\<exists>j. 1 \<le> j \<and> j \<le> n \<and> j \<le> length r \<and> list_all isspace (take j r)
          \<and> rest_match (drop j r) \<noteq> None)" (is "?L \<longleftrightarrow> ?R")
    proof
      assume ?L
      then obtain j where j: "1 \<le> j" "j \<le> Suc n" "j \<le> length r" "list_all isspace (take j r)"
          "rest_match (drop j r) \<noteq> None" by blast
      with False have "j \<noteq> Suc n" by auto
      with j show ?R by (intro exI [of _ j]) simp
    next
      assume ?R
      then show ?L by (meson le_Suc_eq)
    qed
    with eq Suc.IH show ?thesis by simp
  qed
qed

lemma hash_match_iff:
  "hash_match n s \<noteq> None \<longleftrightarrow>
     (\<exists>k. 1 \<le> k \<and> k \<le> n \<and> k \<le> length s \<and> list_all (\<lambda>c. c = CHR ''#'') (take k s)
          \<and> space_match (length s - k) (drop k s) \<noteq> None)"
proof (induction n)
  case 0
  then show ?case by simp
next
  case (Suc n)
  show ?case
  proof (cases "Suc n \<le> length s \<and> list_all (\<lambda>c. c = CHR ''#'') (take (Suc n) s)
                \<and> space_match (length s - Suc n) (drop (Suc n) s) \<noteq> None")
    case True
    then have "hash_match (Suc n) s \<noteq> None" by (auto split: option.splits)
    moreover have "\<exists>k. 1 \<le> k \<and> k \<le> Suc n \<and> k \<le> length s
          \<and> list_all (\<lambda>c. c = CHR ''#'') (take k s)
          \<and> space_match (length s - k) (drop k s) \<noteq> None"
      using True by (intro exI [of _ "Suc n"]) simp
    ultimately show ?thesis by blast
  next
    case False
    then have eq: "hash_match (Suc n) s = hash_match n s"
      by (auto split: option.splits)
    have "(\<exists>k. 1 \<le> k \<and> k \<le> Suc n \<and> k \<le> length s
          \<and> list_all (\<lambda>c. c = CHR ''#'') (take k s)
          \<and> space_match (length s - k) (drop k s) \<noteq> None)
        \<longleftrightarrow> (\<exists>k. 1 \<le> k \<and> k \<le> n \<and> k \<le> length s
          \<and> list_all (\<lambda>c. c = CHR ''#'') (take k s)
          \<and> space_match (length s - k) (drop k s) \<noteq> None)" (is "?L \<longleftrightarrow> ?R")
    proof
      assume ?L
      then obtain k where k: "1 \<le> k" "k \<le> Suc n" "k \<le> length s"
          "list_all (\<lambda>c. c = CHR ''#'') (take k s)"
          "space_match (length s - k) (drop k s) \<noteq> None" by blast
      with False have "k \<noteq> Suc n" by auto
      with k show ?R by (intro exI [of _ k]) simp
    next
      assume ?R
      then show ?L by (meson le_Suc_eq)
    qed
    with eq Suc.IH show ?thesis by simp
  qed
qed

lemma strip_last: "strip s \<noteq> [] \<Longrightarrow> \<not> isspace (last (strip s))"
proof -
  assume a: "strip s \<noteq> []"
  let ?r = "dropWhile isspace (rev (dropWhile isspace s))"
  from a have ne: "?r \<noteq> []" by (simp add: strip_def)
  then have "\<not> isspace (hd ?r)" by (rule hd_dropWhile)
  moreover have "last (strip s) = hd ?r"
    using ne by (simp add: strip_def last_rev)
  ultimately show ?thesis by simp
qed

lemma set_strip: "set (strip s) \<subseteq> set s"
proof -
  have "set (dropWhile isspace (rev (dropWhile isspace s))) \<subseteq> set (rev (dropWhile isspace s))"
    by (rule set_dropWhileD [THEN subsetI])
  also have "\<dots> \<subseteq> set s" using set_dropWhileD by fastforce
  finally show ?thesis by (simp add: strip_def)
qed

lemma takeWhile_eq_take_iff:
  assumes "k \<le> length s" "list_all P (take k s)" "k < length s \<longrightarrow> \<not> P (s ! k)"
  shows "length (takeWhile P s) = k"
proof -
  have s: "s = take k s @ drop k s" by simp
  have "takeWhile P (take k s @ drop k s) = take k s"
  proof (cases "drop k s")
    case Nil
    with assms(2) show ?thesis by (simp add: list_all_iff)
  next
    case (Cons x xs)
    then have "k < length s" by (metis drop_eq_Nil leI list.distinct(1))
    with assms(3) Cons have "\<not> P x" by (metis nth_via_drop)
    with assms(2) Cons show ?thesis
      by (simp add: list_all_iff)
  qed
  then have "takeWhile P s = take k s" by simp
  with assms(1) show ?thesis by simp
qed

lemma heading_match_form:
  assumes nolf: "CHR 0x0A \<notin> set s" and last: "s \<noteq> [] \<longrightarrow> \<not> isspace (last s)"
  shows "heading_match s \<noteq> None \<longleftrightarrow> heading_form_spec s"
proof
  assume "heading_match s \<noteq> None"
  then obtain k where k: "1 \<le> k" "k \<le> 6" "k \<le> length s"
      "list_all (\<lambda>c. c = CHR ''#'') (take k s)"
      "space_match (length s - k) (drop k s) \<noteq> None"
    unfolding heading_match_def hash_match_iff by blast
  from k(5) obtain j where j: "1 \<le> j" "j \<le> length (drop k s)"
      "list_all isspace (take j (drop k s))"
    unfolding space_match_iff by auto
  let ?r = "drop k s"
  from j have rne: "?r \<noteq> []" by auto
  from j(1) obtain j' where j': "j = Suc j'" by (cases j) auto
  from rne obtain a as where r: "?r = a # as" by (cases ?r) auto
  from j(3) have sp: "isspace (hd ?r)" unfolding r j' by simp
  from rne have klt: "k < length s" by simp
  then have "hd ?r = s ! k" by (simp add: hd_drop_conv_nth)
  with sp have "s ! k \<noteq> CHR ''#''" by auto
  with k have len: "length (takeWhile (\<lambda>c. c = CHR ''#'') s) = k"
    by (intro takeWhile_eq_take_iff) auto
  have "last ?r = last s" using klt by simp
  with last rne have "\<not> isspace (last ?r)" by auto
  with rne have "dropWhile isspace ?r \<noteq> []"
    by (metis dropWhile_eq_Nil_conv last_in_set)
  with len k rne sp show "heading_form_spec s"
    by (simp add: heading_form_spec_def Let_def)
next
  assume hf: "heading_form_spec s"
  define k where "k = length (takeWhile (\<lambda>c. c = CHR ''#'') s)"
  define r where "r = drop k s"
  define j where "j = length (takeWhile isspace r)"
  from hf have k: "1 \<le> k" "k \<le> 6" and rne: "r \<noteq> []" and sp: "isspace (hd r)"
    and t: "dropWhile isspace r \<noteq> []"
    by (simp_all add: heading_form_spec_def Let_def k_def r_def)
  have kl: "k \<le> length s" unfolding k_def by (rule length_takeWhile_le)
  have tk: "take k s = takeWhile (\<lambda>c. c = CHR ''#'') s"
    unfolding k_def by (metis takeWhile_eq_take)
  have allh: "list_all (\<lambda>c. c = CHR ''#'') (take k s)"
    unfolding tk list_all_iff by (auto dest: set_takeWhileD)
  have j1: "1 \<le> j" using rne sp unfolding j_def by (cases r) auto
  have jl: "j \<le> length r" unfolding j_def by (rule length_takeWhile_le)
  have tj: "take j r = takeWhile isspace r" unfolding j_def by (metis takeWhile_eq_take)
  have alls: "list_all isspace (take j r)"
    unfolding tj list_all_iff by (auto dest: set_takeWhileD)
  have dj: "drop j r = dropWhile isspace r" unfolding j_def by (metis dropWhile_eq_drop)
  have "set (drop j r) \<subseteq> set s" unfolding r_def
    by (meson set_drop_subset subset_trans)
  with nolf have "CHR 0x0A \<notin> set (drop j r)" by auto
  then have "rest_match (drop j r) \<noteq> None" using t dj by (simp add: rest_match_nolf)
  with j1 jl alls have "space_match (length s - k) r \<noteq> None"
    unfolding space_match_iff r_def by (intro exI [of _ j]) (auto simp: r_def)
  with k kl allh show "heading_match s \<noteq> None"
    unfolding heading_match_def hash_match_iff r_def by (intro exI [of _ k]) simp
qed

text \<open>
  Claim C5. The ids of the outline come from the counters of the levels: at a heading the
  counter of its level goes up by one and the counters of all deeper levels go back to
  zero, and the id is the counters of the levels 1 to the heading's level joined with
  dots (\<open>ids_spec\<close>, run over the levels of the headings of the body). The body with the
  headings \<open># A\<close>, \<open>## B\<close>, \<open>## C\<close>, \<open>### D\<close> has the ids 1, 1.1, 1.2 and 1.2.1.
\<close>

theorem outline_ids:
  "map node_id (get_outline_tree body)
     = ids_spec (replicate 7 0) (map level (get_outline_tree body))
   \<and> map node_id (get_outline_tree ''# A\<newline>## B\<newline>## C\<newline>### D'')
     = [''1'', ''1.1'', ''1.2'', ''1.2.1'']"
proof
  show "map node_id (get_outline_tree body)
     = ids_spec (replicate 7 0) (map level (get_outline_tree body))"
    unfolding get_outline_tree_def by (rule outline_loop_ids) simp
  show "map node_id (get_outline_tree ''# A\<newline>## B\<newline>## C\<newline>### D'')
     = [''1'', ''1.1'', ''1.2'', ''1.2.1'']"
    by code_simp
qed

lemma outline_loop_line_start:
  "(\<exists>n\<in>set (outline_loop i ls cs). line_start n = Suc j)
     \<longleftrightarrow> (i \<le> j \<and> j < i + length ls \<and> heading_match (strip (ls ! (j - i))) \<noteq> None)"
proof (induction ls arbitrary: i cs)
  case Nil
  then show ?case by simp
next
  case (Cons l ls)
  have rest: "(\<exists>n\<in>set (outline_loop (Suc i) ls cs'). line_start n = Suc j)
     \<longleftrightarrow> (Suc i \<le> j \<and> j < Suc i + length ls
          \<and> heading_match (strip ((l # ls) ! (j - i))) \<noteq> None)" for cs'
  proof -
    have "Suc i \<le> j \<Longrightarrow> (l # ls) ! (j - i) = ls ! (j - Suc i)"
      by (simp add: Suc_diff_le)
    then show ?thesis using Cons.IH [of "Suc i" cs'] by auto
  qed
  show ?case
  proof (cases "heading_match (strip l)")
    case None
    then have "(\<exists>n\<in>set (outline_loop i (l # ls) cs). line_start n = Suc j)
        \<longleftrightarrow> (\<exists>n\<in>set (outline_loop (Suc i) ls cs). line_start n = Suc j)" by simp
    also have "\<dots> \<longleftrightarrow> (Suc i \<le> j \<and> j < Suc i + length ls
          \<and> heading_match (strip ((l # ls) ! (j - i))) \<noteq> None)" by (rule rest)
    also have "\<dots> \<longleftrightarrow> (i \<le> j \<and> j < i + length (l # ls)
          \<and> heading_match (strip ((l # ls) ! (j - i))) \<noteq> None)"
      using None by (cases "j = i") auto
    finally show ?thesis .
  next
    case (Some ht)
    obtain h t where ht: "ht = (h, t)" by (cases ht)
    let ?cs' = "bump_counters (length h) cs"
    have "(\<exists>n\<in>set (outline_loop i (l # ls) cs). line_start n = Suc j)
        \<longleftrightarrow> (j = i \<or> (\<exists>n\<in>set (outline_loop (Suc i) ls ?cs'). line_start n = Suc j))"
      using Some ht by (auto simp: Let_def)
    also have "\<dots> \<longleftrightarrow> (j = i \<or> (Suc i \<le> j \<and> j < Suc i + length ls
          \<and> heading_match (strip ((l # ls) ! (j - i))) \<noteq> None))"
      using rest [of ?cs'] by simp
    also have "\<dots> \<longleftrightarrow> (i \<le> j \<and> j < i + length (l # ls)
          \<and> heading_match (strip ((l # ls) ! (j - i))) \<noteq> None)"
      using Some by (cases "j = i") auto
    finally show ?thesis .
  qed
qed

lemma splitlines_no_break:
  "l \<in> set (splitlines s) \<Longrightarrow> c \<in> set l \<Longrightarrow> \<not> is_linebreak c"
proof (induction s arbitrary: l rule: splitlines.induct)
  case 1
  then show ?case by simp
next
  case (2 x xs)
  show ?case
  proof (cases "is_linebreak x")
    case True
    show ?thesis
    proof (cases xs)
      case Nil
      with True "2.prems" show ?thesis by simp
    next
      case (Cons d ds)
      show ?thesis
      proof (cases "x = CHR 0x0D \<and> d = CHR 0x0A")
        case crlf: True
        then have "splitlines (x # xs) = [] # splitlines ds"
          using True Cons by simp
        with "2.prems" have "l \<in> set (splitlines ds)" by auto
        then show ?thesis
          using "2.IH"(1) [OF True Cons crlf] "2.prems"(2) by blast
      next
        case nocrlf: False
        then have "splitlines (x # xs) = [] # splitlines (d # ds)"
          using True Cons by auto
        with "2.prems" have "l \<in> set (splitlines (d # ds))" by auto
        then show ?thesis
          using "2.IH"(2) [OF True Cons nocrlf] "2.prems"(2) by blast
      qed
    qed
  next
    case False
    show ?thesis
    proof (cases "splitlines xs")
      case Nil
      with False have "splitlines (x # xs) = [[x]]" by simp
      with "2.prems" False show ?thesis by auto
    next
      case (Cons l0 ls0)
      with False have eq: "splitlines (x # xs) = (x # l0) # ls0" by simp
      from Cons have "l0 \<in> set (splitlines xs)" "set ls0 \<subseteq> set (splitlines xs)" by auto
      with "2.prems" eq False "2.IH"(3) [OF False] show ?thesis
        by (metis set_ConsD subsetD)
    qed
  qed
qed

lemma is_linebreak_lf [simp]: "is_linebreak (CHR 0x0A)"
  by (simp add: is_linebreak_def)

lemma strip_line_no_lf:
  assumes "l \<in> set (splitlines s)"
  shows "CHR 0x0A \<notin> set (strip l)"
proof
  assume "CHR 0x0A \<in> set (strip l)"
  then have "CHR 0x0A \<in> set l" using set_strip by blast
  with assms splitlines_no_break is_linebreak_lf show False by blast
qed

text \<open>
  Claim C6, as amended. The pattern is matched against the line with its leading and
  trailing white space removed: a line of the body gives a node exactly when the trimmed
  line begins with one to six characters \<open>#\<close>, followed by white space and by a text
  that is not empty. (A line such as \<open>"  # A"\<close>, which does not begin with \<open>#\<close>, gives a
  node; see the counterexample.)
\<close>

theorem heading_lines:
  "i < length (splitlines body) \<Longrightarrow>
   (\<exists>n\<in>set (get_outline_tree body). line_start n = Suc i)
     \<longleftrightarrow> heading_form_spec (strip (splitlines body ! i))"
proof -
  assume i: "i < length (splitlines body)"
  let ?l = "splitlines body ! i"
  from i have "?l \<in> set (splitlines body)" by simp
  then have nolf: "CHR 0x0A \<notin> set (strip ?l)" by (rule strip_line_no_lf)
  have "(\<exists>n\<in>set (get_outline_tree body). line_start n = Suc i)
     \<longleftrightarrow> heading_match (strip ?l) \<noteq> None"
    unfolding get_outline_tree_def outline_loop_line_start using i by simp
  also have "\<dots> \<longleftrightarrow> heading_form_spec (strip ?l)"
    using nolf strip_last by (intro heading_match_form) auto
  finally show ?thesis .
qed

theorem heading_lines_witness:
  "0 < length (splitlines ''intro\<newline>  ## Use  '')
   \<and> 1 < length (splitlines ''intro\<newline>  ## Use  '')
   \<and> \<not> (\<exists>n\<in>set (get_outline_tree ''intro\<newline>  ## Use  ''). line_start n = Suc 0)
   \<and> (\<exists>n\<in>set (get_outline_tree ''intro\<newline>  ## Use  ''). line_start n = Suc 1)"
proof -
  have h0: "0 < length (splitlines ''intro\<newline>  ## Use  '')" by code_simp
  have h1: "1 < length (splitlines ''intro\<newline>  ## Use  '')" by code_simp
  have f0: "\<not> heading_form_spec (strip (splitlines ''intro\<newline>  ## Use  '' ! 0))" by code_simp
  have f1: "heading_form_spec (strip (splitlines ''intro\<newline>  ## Use  '' ! 1))" by code_simp
  show ?thesis
    using h0 h1 f0 f1 heading_lines [OF h0] heading_lines [OF h1] by blast
qed

theorem heading_lines_counterexample:
  "map line_start (get_outline_tree ''  # A'') = [1]
   \<and> splitlines ''  # A'' ! 0 = ''  # A''
   \<and> \<not> heading_form_spec ''  # A''"
  by code_simp

section \<open>The scan of \<open>update_knowledge_section\<close> against the outline\<close>

lemma of_char_digit: "(k::nat) < 10 \<Longrightarrow> (of_char (char_of (48 + k) :: char) :: nat) = 48 + k"
  by simp

lemma digit_not_dot: "(k::nat) < 10 \<Longrightarrow> (char_of (48 + k) :: char) \<noteq> CHR ''.''"
proof
  assume k: "k < 10" and eq: "(char_of (48 + k) :: char) = CHR ''.''"
  from k have "(of_char (char_of (48 + k) :: char) :: nat) = 48 + k" by (rule of_char_digit)
  with eq show False by simp
qed

lemma str_nat_no_dot: "CHR ''.'' \<notin> set (str_nat n)"
proof (induction n rule: str_nat.induct)
  case (1 n)
  show ?case
  proof (cases "n < 10")
    case True
    then show ?thesis using digit_not_dot [of n] by (subst str_nat.simps) auto
  next
    case False
    have "n mod 10 < 10" by simp
    then have "(char_of (48 + n mod 10) :: char) \<noteq> CHR ''.''" by (rule digit_not_dot)
    with False "1.IH" show ?thesis by (subst str_nat.simps) auto
  qed
qed

lemma dots_join:
  "\<forall>x\<in>set xs. CHR ''.'' \<notin> set x \<Longrightarrow>
   length (filter (\<lambda>c. c = CHR ''.'') (join ''.'' xs)) = length xs - 1"
proof (induction "''.''" xs rule: join.induct)
  case 1
  then show ?case by simp
next
  case (2 x)
  then show ?case by (auto simp add: filter_empty_conv)
next
  case (3 x y ys)
  then have "filter (\<lambda>c. c = CHR ''.'') x = []" by (auto simp add: filter_empty_conv)
  with 3 show ?case by simp
qed

lemma dots_make_id:
  assumes "length cs = 7" "lv \<le> 6"
  shows "length (filter (\<lambda>c. c = CHR ''.'') (make_id lv cs)) = lv - 1"
proof -
  have "length (filter (\<lambda>c. c = CHR ''.'') (make_id lv cs))
        = length (map str_nat (take lv (drop 1 cs))) - 1"
    unfolding make_id_def by (rule dots_join) (auto simp: str_nat_no_dot)
  with assms show ?thesis by simp
qed

lemma outline_loop_line_start_gt:
  "n \<in> set (outline_loop i ls cs) \<Longrightarrow> i < line_start n"
proof (induction ls arbitrary: i cs)
  case Nil
  then show ?case by simp
next
  case (Cons l ls)
  show ?case
  proof (cases "heading_match (strip l)")
    case None
    with Cons.prems have "n \<in> set (outline_loop (Suc i) ls cs)" by simp
    then have "Suc i < line_start n" by (rule Cons.IH)
    then show ?thesis by simp
  next
    case (Some ht)
    obtain h t where ht: "ht = (h, t)" by (cases ht)
    from Cons.prems Some ht
    consider "line_start n = Suc i"
      | "n \<in> set (outline_loop (Suc i) ls (bump_counters (length h) cs))"
      by (auto simp: Let_def)
    then show ?thesis
    proof cases
      case 1
      then show ?thesis by simp
    next
      case 2
      then have "Suc i < line_start n" by (rule Cons.IH)
      then show ?thesis by simp
    qed
  qed
qed

lemma outline_loop_level_indep:
  "map (\<lambda>n. (level n, line_start n)) (outline_loop i ls cs)
   = map (\<lambda>n. (level n, line_start n)) (outline_loop i ls cs')"
proof (induction ls arbitrary: i cs cs')
  case Nil
  then show ?case by simp
next
  case (Cons l ls)
  show ?case
  proof (cases "heading_match (strip l)")
    case None
    then show ?thesis using Cons.IH by simp
  next
    case (Some ht)
    obtain h t where ht: "ht = (h, t)" by (cases ht)
    show ?thesis using Some ht Cons.IH by (simp add: Let_def)
  qed
qed

lemma scan_loop_after:
  assumes "target_found st" "length (counters st) = 7"
    and "length (filter (\<lambda>c. c = CHR ''.'') nid) + 1 = current_level st"
  shows "\<exists>st'. scan_loop nid e i ls st = Inr st' \<and> target_found st'
           \<and> update_start st' = update_start st
           \<and> update_end st' =
               (case find (\<lambda>n. level n \<le> current_level st) (outline_loop i ls (counters st)) of
                  None \<Rightarrow> update_end st
                | Some n \<Rightarrow> int (line_start n) - 1)"
  using assms
proof (induction ls arbitrary: i st)
  case Nil
  then show ?case by simp
next
  case (Cons l ls)
  show ?case
  proof (cases "heading_match (strip l)")
    case None
    then have step: "scan_loop nid e i (l # ls) st = scan_loop nid e (Suc i) ls st"
      and ol: "outline_loop i (l # ls) (counters st) = outline_loop (Suc i) ls (counters st)"
      by simp_all
    show ?thesis unfolding step ol using Cons.prems by (rule Cons.IH)
  next
    case (Some ht)
    obtain h t where ht: "ht = (h, t)" by (cases ht)
    with Some have hm: "heading_match (strip l) = Some (h, t)" by simp
    then have lv: "1 \<le> length h" "length h \<le> 6"
      using heading_match_level by blast+
    let ?cs = "bump_counters (length h) (counters st)"
    show ?thesis
    proof (cases "length h \<le> current_level st")
      case True
      then show ?thesis using hm Cons.prems(1) by (simp add: Let_def)
    next
      case False
      have "length (filter (\<lambda>c. c = CHR ''.'') (make_id (length h) ?cs)) = length h - 1"
        using Cons.prems(2) lv(2) by (intro dots_make_id) simp_all
      with False Cons.prems(3) have ne: "make_id (length h) ?cs \<noteq> nid" by auto
      let ?st = "st\<lparr>counters := ?cs\<rparr>"
      have step: "scan_loop nid e i (l # ls) st = scan_loop nid e (Suc i) ls ?st"
        using hm False ne by (simp add: Let_def)
      have ol: "find (\<lambda>n. level n \<le> current_level st) (outline_loop i (l # ls) (counters st))
            = find (\<lambda>n. level n \<le> current_level ?st) (outline_loop (Suc i) ls (counters ?st))"
        using hm False by (simp add: Let_def)
      have "\<exists>st'. scan_loop nid e (Suc i) ls ?st = Inr st' \<and> target_found st'
           \<and> update_start st' = update_start ?st
           \<and> update_end st' =
               (case find (\<lambda>n. level n \<le> current_level ?st)
                       (outline_loop (Suc i) ls (counters ?st)) of
                  None \<Rightarrow> update_end ?st
                | Some n \<Rightarrow> int (line_start n) - 1)"
        using Cons.prems by (intro Cons.IH) simp_all
      then show ?thesis unfolding step ol by (simp cong: option.case_cong)
    qed
  qed
qed

lemma scan_loop_before:
  assumes "\<not> target_found st" "length (counters st) = 7"
  shows "case find (\<lambda>n. node_id n = nid) (outline_loop i ls (counters st)) of
           None \<Rightarrow> (\<exists>st'. scan_loop nid e i ls st = Inr st' \<and> \<not> target_found st')
         | Some tg \<Rightarrow>
             if \<not> lock_holds e (title tg) then scan_loop nid e i ls st = Inl (title tg)
             else (\<exists>st'. scan_loop nid e i ls st = Inr st' \<and> target_found st'
                    \<and> update_start st' = int (line_start tg) - 1
                    \<and> update_end st' =
                        (case find (\<lambda>n. line_start tg < line_start n \<and> level n \<le> level tg)
                               (outline_loop i ls (counters st)) of
                           None \<Rightarrow> update_end st
                         | Some n \<Rightarrow> int (line_start n) - 1))"
  using assms
proof (induction ls arbitrary: i st)
  case Nil
  then show ?case by simp
next
  case (Cons l ls)
  show ?case
  proof (cases "heading_match (strip l)")
    case None
    then have step: "scan_loop nid e i (l # ls) st = scan_loop nid e (Suc i) ls st"
      and ol: "outline_loop i (l # ls) (counters st) = outline_loop (Suc i) ls (counters st)"
      by simp_all
    show ?thesis unfolding step ol using Cons.prems by (rule Cons.IH)
  next
    case (Some ht)
    obtain h t where ht: "ht = (h, t)" by (cases ht)
    with Some have hm: "heading_match (strip l) = Some (h, t)" by simp
    then have lv: "1 \<le> length h" "length h \<le> 6"
      using heading_match_level by blast+
    let ?cs = "bump_counters (length h) (counters st)"
    let ?n0 = "\<lparr>node_id = make_id (length h) ?cs, title = strip t, level = length h,
                line_start = i + 1\<rparr>"
    let ?rest = "outline_loop (Suc i) ls ?cs"
    have ol: "outline_loop i (l # ls) (counters st) = ?n0 # ?rest"
      using hm by (simp add: Let_def)
    have gt: "\<And>n. n \<in> set ?rest \<Longrightarrow> Suc i < line_start n"
      by (rule outline_loop_line_start_gt)
    show ?thesis
    proof (cases "make_id (length h) ?cs = nid")
      case True
      then have f: "find (\<lambda>n. node_id n = nid) (outline_loop i (l # ls) (counters st)) = Some ?n0"
        unfolding ol by simp
      show ?thesis
      proof (cases "lock_holds e (strip t)")
        case False
        then have "scan_loop nid e i (l # ls) st = Inl (strip t)"
          using hm True Cons.prems(1) by (simp add: Let_def lock_holds_def)
        with False show ?thesis unfolding f by simp
      next
        case lock: True
        let ?st = "st\<lparr>counters := ?cs, target_found := True, current_level := length h,
                      update_start := int i\<rparr>"
        have step: "scan_loop nid e i (l # ls) st = scan_loop nid e (Suc i) ls ?st"
          using hm True lock Cons.prems(1) by (simp add: Let_def lock_holds_def)
        have dots: "length (filter (\<lambda>c. c = CHR ''.'') nid) + 1 = current_level ?st"
          using dots_make_id [of ?cs "length h"] Cons.prems(2) lv True by simp
        have "\<exists>st'. scan_loop nid e (Suc i) ls ?st = Inr st' \<and> target_found st'
           \<and> update_start st' = update_start ?st
           \<and> update_end st' =
               (case find (\<lambda>n. level n \<le> current_level ?st)
                       (outline_loop (Suc i) ls (counters ?st)) of
                  None \<Rightarrow> update_end ?st
                | Some n \<Rightarrow> int (line_start n) - 1)"
          using Cons.prems(2) dots by (intro scan_loop_after) simp_all
        then have "\<exists>st'. scan_loop nid e (Suc i) ls ?st = Inr st' \<and> target_found st'
           \<and> update_start st' = int i
           \<and> update_end st' =
               (case find (\<lambda>n. level n \<le> length h) ?rest of
                  None \<Rightarrow> update_end st
                | Some n \<Rightarrow> int (line_start n) - 1)"
          by (simp cong: option.case_cong)
        then obtain st' where st': "scan_loop nid e (Suc i) ls ?st = Inr st'" "target_found st'"
            "update_start st' = int i"
            "update_end st' = (case find (\<lambda>n. level n \<le> length h) ?rest of
                  None \<Rightarrow> update_end st | Some n \<Rightarrow> int (line_start n) - 1)"
          by blast
        have "find (\<lambda>n. line_start ?n0 < line_start n \<and> level n \<le> level ?n0) (?n0 # ?rest)
              = find (\<lambda>n. line_start ?n0 < line_start n \<and> level n \<le> level ?n0) ?rest"
          by simp
        also have "\<dots> = find (\<lambda>n. level n \<le> length h) ?rest"
          using gt by (intro find_cong) auto
        finally have fe: "find (\<lambda>n. line_start ?n0 < line_start n \<and> level n \<le> level ?n0)
                        (outline_loop i (l # ls) (counters st))
                      = find (\<lambda>n. level n \<le> length h) ?rest"
          unfolding ol .
        show ?thesis unfolding f using lock step st' fe by (simp cong: option.case_cong)
      qed
    next
      case False
      let ?st = "st\<lparr>counters := ?cs\<rparr>"
      have step: "scan_loop nid e i (l # ls) st = scan_loop nid e (Suc i) ls ?st"
        using hm False Cons.prems(1) by (simp add: Let_def)
      have f: "find (\<lambda>n. node_id n = nid) (outline_loop i (l # ls) (counters st))
             = find (\<lambda>n. node_id n = nid) (outline_loop (Suc i) ls (counters ?st))"
        unfolding ol using False by simp
      have ih: "case find (\<lambda>n. node_id n = nid) (outline_loop (Suc i) ls (counters ?st)) of
           None \<Rightarrow> (\<exists>st'. scan_loop nid e (Suc i) ls ?st = Inr st' \<and> \<not> target_found st')
         | Some tg \<Rightarrow>
             if \<not> lock_holds e (title tg) then scan_loop nid e (Suc i) ls ?st = Inl (title tg)
             else (\<exists>st'. scan_loop nid e (Suc i) ls ?st = Inr st' \<and> target_found st'
                    \<and> update_start st' = int (line_start tg) - 1
                    \<and> update_end st' =
                        (case find (\<lambda>n. line_start tg < line_start n \<and> level n \<le> level tg)
                               (outline_loop (Suc i) ls (counters ?st)) of
                           None \<Rightarrow> update_end ?st
                         | Some n \<Rightarrow> int (line_start n) - 1))"
        using Cons.prems by (intro Cons.IH) simp_all
      show ?thesis
      proof (cases "find (\<lambda>n. node_id n = nid) (outline_loop (Suc i) ls (counters ?st))")
        case None
        with ih show ?thesis unfolding f step by simp
      next
        case (Some tg)
        then have "tg \<in> set ?rest" by (auto simp: find_Some_iff)
        then have "Suc i < line_start tg" by (rule gt)
        then have fe: "find (\<lambda>n. line_start tg < line_start n \<and> level n \<le> level tg)
                        (outline_loop i (l # ls) (counters st))
                 = find (\<lambda>n. line_start tg < line_start n \<and> level n \<le> level tg) ?rest"
          unfolding ol by simp
        from ih Some show ?thesis unfolding f step Some option.case fe
          by (simp cong: option.case_cong if_cong)
      qed
    qed
  qed
qed

lemma replace_section_spec:
  "replace_section content nid e new_content =
     (case find_section content nid of
        None \<Rightarrow> (SectionNotFound nid, None)
      | Some tg \<Rightarrow>
          if \<not> lock_holds e (title tg) then (LockMismatch nid (title tg) e, None)
          else
            (Updated nid e (int (section_end content tg) - int (line_start tg - 1))
               (length (splitlines new_content)),
             Some (if endswith content ''\<newline>''
                      \<and> \<not> endswith (join ''\<newline>'' (spliced_lines content tg new_content)) ''\<newline>''
                   then join ''\<newline>'' (spliced_lines content tg new_content) @ ''\<newline>''
                   else join ''\<newline>'' (spliced_lines content tg new_content))))"
proof -
  let ?lines = "splitlines content"
  let ?ol = "outline_loop 0 ?lines (counters scan_init)"
  have ol: "?ol = get_outline_tree content"
    by (simp add: get_outline_tree_def scan_init_def)
  have init: "\<not> target_found scan_init" "length (counters scan_init) = 7"
    "update_end scan_init = - 1"
    by (simp_all add: scan_init_def)
  have sb: "case find (\<lambda>n. node_id n = nid) ?ol of
           None \<Rightarrow> (\<exists>st'. scan_loop nid e 0 ?lines scan_init = Inr st' \<and> \<not> target_found st')
         | Some tg \<Rightarrow>
             if \<not> lock_holds e (title tg) then scan_loop nid e 0 ?lines scan_init = Inl (title tg)
             else (\<exists>st'. scan_loop nid e 0 ?lines scan_init = Inr st' \<and> target_found st'
                    \<and> update_start st' = int (line_start tg) - 1
                    \<and> update_end st' =
                        (case find (\<lambda>n. line_start tg < line_start n \<and> level n \<le> level tg) ?ol of
                           None \<Rightarrow> update_end scan_init
                         | Some n \<Rightarrow> int (line_start n) - 1))"
    using init(1,2) by (rule scan_loop_before)
  show ?thesis
  proof (cases "find_section content nid")
    case None
    then have "find (\<lambda>n. node_id n = nid) ?ol = None"
      by (simp add: find_section_def ol)
    with sb obtain st' where "scan_loop nid e 0 ?lines scan_init = Inr st'" "\<not> target_found st'"
      by auto
    then show ?thesis using None by (simp add: replace_section_def Let_def)
  next
    case (Some tg)
    then have f: "find (\<lambda>n. node_id n = nid) ?ol = Some tg"
      by (simp add: find_section_def ol)
    then have "tg \<in> set ?ol" by (auto simp: find_Some_iff)
    then have tgpos: "0 < line_start tg" by (rule outline_loop_line_start_gt)
    show ?thesis
    proof (cases "lock_holds e (title tg)")
      case False
      with sb f have "scan_loop nid e 0 ?lines scan_init = Inl (title tg)" by simp
      then show ?thesis using Some False by (simp add: replace_section_def Let_def)
    next
      case True
      with sb f obtain st' where st': "scan_loop nid e 0 ?lines scan_init = Inr st'"
          "target_found st'" "update_start st' = int (line_start tg) - 1"
          "update_end st' =
             (case find (\<lambda>n. line_start tg < line_start n \<and> level n \<le> level tg) ?ol of
                None \<Rightarrow> update_end scan_init
              | Some n \<Rightarrow> int (line_start n) - 1)"
        by auto
      have us: "nat (update_start st') = line_start tg - 1"
        and us': "update_start st' = int (line_start tg - 1)"
        using st'(3) tgpos by simp_all
      define ue where "ue = (if update_end st' = - 1 then int (length ?lines) else update_end st')"
      have ue: "ue = int (section_end content tg)"
      proof (cases "find (\<lambda>n. line_start tg < line_start n \<and> level n \<le> level tg) ?ol")
        case None
        then show ?thesis using st'(4) init(3)
          by (simp add: ue_def section_end_def ol)
      next
        case (Some n)
        then have "n \<in> set ?ol" by (auto simp: find_Some_iff)
        then have "0 < line_start n" by (rule outline_loop_line_start_gt)
        then show ?thesis using st'(4) Some
          by (simp add: ue_def section_end_def ol)
      qed
      have "replace_section content nid e new_content =
          (Updated nid e (ue - update_start st') (length (splitlines new_content)),
           Some (let joined = join ''\<newline>'' (take (nat (update_start st')) ?lines
                                @ splitlines new_content @ drop (nat ue) ?lines)
                 in if endswith content ''\<newline>'' \<and> \<not> endswith joined ''\<newline>''
                    then joined @ ''\<newline>'' else joined))"
        using st'(1,2) by (simp add: replace_section_def Let_def ue_def)
      then show ?thesis using Some True
        by (simp add: ue us us' spliced_lines_def Let_def)
    qed
  qed
qed

section \<open>The update on the file system\<close>

lemma map_of_replace:
  "map_of (map (\<lambda>(q, t). if q = a then (q, txt) else (q, t)) xs) b
   = (if b = a \<and> map_of xs a \<noteq> None then Some txt else map_of xs b)"
  by (induction xs) auto

lemma write_file_lookup:
  "map_of (files (write_file a txt fs)) b = (if b = a then Some txt else map_of (files fs) b)"
proof (cases "map_of (files fs) a")
  case None
  then show ?thesis
    by (auto simp: write_file_def map_add_def split: option.splits)
next
  case (Some t)
  then show ?thesis by (simp add: write_file_def map_of_replace)
qed

lemma write_file_cwd [simp]: "cwd (write_file a txt fs) = cwd fs"
  by (simp add: write_file_def)

lemma makedirs_files: "makedirs a fs = Some fs' \<Longrightarrow> files fs' = files fs \<and> cwd fs' = cwd fs"
  by (auto simp: makedirs_def split: if_splits)

lemma copy2_effect:
  assumes "copy2 src dst fs = Some fs'"
  shows "\<exists>raw k. map_of (files fs) src = Some raw \<and> k \<noteq> src
           \<and> (k = dst \<or> k = path_join dst (basename src))
           \<and> fs' = write_file k raw fs"
proof -
  let ?k = "if is_dir fs dst then path_join dst (basename src) else dst"
  from assms obtain raw where raw: "map_of (files fs) src = Some raw"
    by (auto simp: copy2_def Let_def split: option.splits)
  with assms have "?k \<noteq> src" "fs' = write_file ?k raw fs"
    by (auto simp: copy2_def Let_def split: if_splits)
  with raw show ?thesis by (intro exI [of _ raw] exI [of _ ?k]) auto
qed

lemma create_snapshot_effect:
  assumes "create_snapshot ts rp ap fs = (Some s, fs1)" "map_of (files fs) ap = Some raw"
  shows "s = Some (snapshot_path rp ts) \<and> cwd fs1 = cwd fs
         \<and> (\<exists>k. k \<noteq> ap
                \<and> (k = abspath (cwd fs) (snapshot_path rp ts)
                    \<or> k = path_join (abspath (cwd fs) (snapshot_path rp ts)) (basename ap))
                \<and> map_of (files fs1) k = Some raw
                \<and> (\<forall>k'. k' \<noteq> k \<longrightarrow> map_of (files fs1) k' = map_of (files fs) k'))"
proof -
  from assms(2) have ex: "path_exists fs ap" by (simp add: path_exists_def is_file_def)
  let ?safe = "replace_char (CHR 0x5C) CHR ''_'' (replace_char CHR ''/'' CHR ''_'' rp)"
  let ?hd = "path_join HISTORY_DIR ?safe"
  from assms(1) ex obtain fs0 where mk: "makedirs (abspath (cwd fs) ?hd) fs = Some fs0"
    by (auto simp: create_snapshot_def ensure_history_dir_def Let_def split: option.splits)
  then have fs0: "files fs0 = files fs" "cwd fs0 = cwd fs" using makedirs_files by blast+
  from assms(1) ex mk obtain fs2 where
    cp: "copy2 ap (abspath (cwd fs0) (path_join ?hd (ts @ ''.snap''))) fs0 = Some fs2"
    and s: "s = Some (path_join ?hd (ts @ ''.snap''))" and fs1: "fs1 = fs2"
    by (auto simp: create_snapshot_def ensure_history_dir_def Let_def split: option.splits)
  from copy2_effect [OF cp] obtain raw' k where
    k: "map_of (files fs0) ap = Some raw'" "k \<noteq> ap"
       "k = abspath (cwd fs0) (path_join ?hd (ts @ ''.snap''))
        \<or> k = path_join (abspath (cwd fs0) (path_join ?hd (ts @ ''.snap''))) (basename ap)"
       "fs2 = write_file k raw' fs0"
    by blast
  from k(1) assms(2) fs0 have raw': "raw' = raw" by simp
  have "map_of (files fs1) k = Some raw"
    and "\<forall>k'. k' \<noteq> k \<longrightarrow> map_of (files fs1) k' = map_of (files fs) k'"
    and "cwd fs1 = cwd fs"
    unfolding fs1 k(4) raw' by (simp_all add: write_file_lookup fs0)
  with s k(2,3) fs0 show ?thesis
    unfolding snapshot_path_def by (intro conjI exI [of _ k]) auto
qed

lemma update_on_document:
  assumes td: "target_document fs path = Some (rp, ap, raw)"
    and snap: "create_snapshot ts rp ap fs = (Some s, fs1)"
  shows "update_knowledge_section ts path nid e new_content fs =
     (if nid = ''APPEND''
      then (Appended, write_file ap (raw @ ''\<newline>\<newline>'' @ new_content) fs1)
      else (case replace_section (universal_newlines raw) nid e new_content of
              (msg, None) \<Rightarrow> (msg, fs1)
            | (msg, Some final_content) \<Rightarrow> (msg, write_file ap final_content fs1)))"
proof -
  from td have r: "smart_resolve_path fs path = Inr rp" "validate_path (cwd fs) rp = Inr ap"
    "map_of (files fs) ap = Some raw"
    by (auto simp: target_document_def split: sum.splits)
  then have ex: "path_exists fs ap" by (simp add: path_exists_def is_file_def)
  from create_snapshot_effect [OF snap r(3)] have "map_of (files fs1) ap = Some raw"
    by (metis r(3))
  then show ?thesis
    using r ex snap by (simp add: update_knowledge_section_def read_text_def)
qed

lemma digit_not_A: "(k::nat) < 10 \<Longrightarrow> (char_of (48 + k) :: char) \<noteq> CHR ''A''"
proof
  assume k: "k < 10" and eq: "(char_of (48 + k) :: char) = CHR ''A''"
  from k have "(of_char (char_of (48 + k) :: char) :: nat) = 48 + k" by (rule of_char_digit)
  with eq k show False by simp
qed

lemma str_nat_no_A: "CHR ''A'' \<notin> set (str_nat n)"
proof (induction n rule: str_nat.induct)
  case (1 n)
  show ?case
  proof (cases "n < 10")
    case True
    then show ?thesis using digit_not_A [of n] by (subst str_nat.simps) auto
  next
    case False
    have "n mod 10 < 10" by simp
    then have "(char_of (48 + n mod 10) :: char) \<noteq> CHR ''A''" by (rule digit_not_A)
    with False "1.IH" show ?thesis by (subst str_nat.simps) auto
  qed
qed

lemma set_join: "set (join sep xs) \<subseteq> set sep \<union> \<Union> (set ` set xs)"
  by (induction sep xs rule: join.induct) auto

lemma make_id_not_append: "make_id lv cs \<noteq> ''APPEND''"
proof
  assume "make_id lv cs = ''APPEND''"
  then have "CHR ''A'' \<in> set (make_id lv cs)" by simp
  then have "CHR ''A'' \<in> set ''.'' \<union> \<Union> (set ` set (map str_nat (take lv (drop 1 cs))))"
    unfolding make_id_def using set_join by blast
  then show False using str_nat_no_A by auto
qed

lemma outline_loop_not_append:
  "n \<in> set (outline_loop i ls cs) \<Longrightarrow> node_id n \<noteq> ''APPEND''"
proof (induction ls arbitrary: i cs)
  case Nil
  then show ?case by simp
next
  case (Cons l ls)
  show ?case
  proof (cases "heading_match (strip l)")
    case None
    with Cons.prems have "n \<in> set (outline_loop (Suc i) ls cs)" by simp
    then show ?thesis by (rule Cons.IH)
  next
    case (Some ht)
    obtain h t where ht: "ht = (h, t)" by (cases ht)
    from Cons.prems Some ht
    consider "node_id n = make_id (length h) (bump_counters (length h) cs)"
      | "n \<in> set (outline_loop (Suc i) ls (bump_counters (length h) cs))"
      by (auto simp: Let_def)
    then show ?thesis
    proof cases
      case 1
      then show ?thesis using make_id_not_append by simp
    next
      case 2
      then show ?thesis by (rule Cons.IH)
    qed
  qed
qed

lemma find_section_not_append:
  assumes "find_section content nid = Some tg"
  shows "nid \<noteq> ''APPEND''"
proof -
  from assms have "tg \<in> set (get_outline_tree content)" "node_id tg = nid"
    by (auto simp: find_section_def find_Some_iff)
  then show ?thesis
    unfolding get_outline_tree_def using outline_loop_not_append by blast
qed

text \<open>
  Claim C1. When the id \<open>nid\<close> resolves to a heading of the document (the first heading
  of the outline with that id) and the expected title, in lower case and trimmed, is not
  a substring of the title of that heading, in lower case and trimmed, the call returns
  the lock mismatch message with the title found, and the stored text of the document is
  what it was. (The premises say that the path resolves to an existing file and that the
  snapshot could be written.)
\<close>

theorem lock_mismatch:
  assumes "target_document fs path = Some (rp, ap, raw)"
    and "create_snapshot ts rp ap fs = (Some s, fs1)"
    and "find_section (universal_newlines raw) nid = Some tg"
    and "\<not> lock_holds expected (title tg)"
  shows "update_knowledge_section ts path nid expected new_content fs
           = (LockMismatch nid (title tg) expected, fs1)
         \<and> map_of (files fs1) ap = Some raw"
proof -
  from assms(1) have raw: "map_of (files fs) ap = Some raw"
    by (auto simp: target_document_def split: sum.splits)
  from assms(3) have na: "nid \<noteq> ''APPEND''" by (rule find_section_not_append)
  have "replace_section (universal_newlines raw) nid expected new_content
        = (LockMismatch nid (title tg) expected, None)"
    using assms(3,4) by (simp add: replace_section_spec)
  then have "update_knowledge_section ts path nid expected new_content fs
           = (LockMismatch nid (title tg) expected, fs1)"
    using na by (simp add: update_on_document [OF assms(1,2)])
  moreover have "map_of (files fs1) ap = Some raw"
    using create_snapshot_effect [OF assms(2) raw] raw by metis
  ultimately show ?thesis by simp
qed

theorem lock_mismatch_witness:
  "update_knowledge_section ''20260101_000000'' ''libs/a.md'' ''1.1'' ''Core'' ''## New'' example_fs
     = (LockMismatch ''1.1'' ''B'' ''Core'', example_fs_snap)
   \<and> map_of (files example_fs_snap) ''/kb/libs/a.md''
     = Some ''# A\<newline>x\<newline>## B\<newline>y\<newline>## C\<newline>z\<newline>''"
proof -
  let ?raw = "''# A\<newline>x\<newline>## B\<newline>y\<newline>## C\<newline>z\<newline>''"
  let ?tg = "\<lparr>node_id = ''1.1'', title = ''B'', level = 2, line_start = 3\<rparr>"
  have h1: "target_document example_fs ''libs/a.md'' = Some (''libs/a.md'', ''/kb/libs/a.md'', ?raw)"
    by code_simp
  have h2: "create_snapshot ''20260101_000000'' ''libs/a.md'' ''/kb/libs/a.md'' example_fs
            = (Some (Some ''./.history/libs_a.md/20260101_000000.snap''), example_fs_snap)"
    by code_simp
  have h3: "find_section (universal_newlines ?raw) ''1.1'' = Some ?tg"
    by code_simp
  have h4: "\<not> lock_holds ''Core'' (title ?tg)"
    by code_simp
  show ?thesis using lock_mismatch [OF h1 h2 h3 h4, of "''## New''"] by simp
qed


lemma update_lock_fails:
  assumes "target_document fs path = Some (rp, ap, raw)"
    and "create_snapshot ts rp ap fs = (Some s, fs1)"
    and "find_section (universal_newlines raw) nid = Some tg"
    and "\<not> lock_holds expected (title tg)"
  shows "update_knowledge_section ts path nid expected new_content fs
           = (LockMismatch nid (title tg) expected, fs1)"
  using assms(3,4) find_section_not_append [OF assms(3)]
  by (simp add: update_on_document [OF assms(1,2)] replace_section_spec)




lemma replace_section_failure:
  assumes "replace_section content nid e new_content = (msg, r)"
    and "msg = SectionNotFound x \<or> msg = LockMismatch x y z"
  shows "r = None"
  using assms
  by (auto simp: replace_section_spec split: option.splits if_splits)

lemma contains_empty [simp]: "contains [] s"
  by (induction s) auto






lemma join_Cons_hd: "join sep ((c # l) # ls) = c # join sep (l # ls)"
  by (cases ls) simp_all

lemma join_Nil_hd: "ls \<noteq> [] \<Longrightarrow> join sep ([] # ls) = sep @ join sep ls"
  by (cases ls) simp_all









section \<open>Frontmatter\<close>

lemma contains_iff: "contains sub s \<longleftrightarrow> (\<exists>p q. s = p @ sub @ q)"
proof (induction s)
  case Nil
  then show ?case by auto
next
  case (Cons c cs)
  show ?case
  proof
    assume "contains sub (c # cs)"
    then consider "prefix sub (c # cs)" | "contains sub cs" by auto
    then show "\<exists>p q. c # cs = p @ sub @ q"
    proof cases
      case 1
      then obtain q where "c # cs = sub @ q" by (auto simp: prefix_def)
      then have "c # cs = [] @ sub @ q" by simp
      then show ?thesis by blast
    next
      case 2
      with Cons.IH obtain p q where "cs = p @ sub @ q" by blast
      then have "c # cs = (c # p) @ sub @ q" by simp
      then show ?thesis by blast
    qed
  next
    assume "\<exists>p q. c # cs = p @ sub @ q"
    then obtain p q where pq: "c # cs = p @ sub @ q" by blast
    show "contains sub (c # cs)"
    proof (cases p)
      case Nil
      with pq have "prefix sub (c # cs)" by (simp add: prefix_def)
      then show ?thesis by simp
    next
      case (Cons x p')
      with pq have "cs = p' @ sub @ q" by simp
      with Cons.IH have "contains sub cs" by blast
      then show ?thesis by simp
    qed
  qed
qed

lemma split_at_first_unique:
  assumes "sep \<noteq> []" and "\<And>i. i < length a \<Longrightarrow> \<not> prefix sep (drop i a @ sep @ r)"
  shows "split_at_first sep (a @ sep @ r) = Some (a, r)"
  using assms(2)
proof (induction a)
  case Nil
  from assms(1) obtain c cs where sep: "sep = c # cs" by (cases sep) auto
  have "split_at_first sep ((c # cs) @ r) = Some ([], drop (length sep) ((c # cs) @ r))"
    unfolding sep by simp
  then show ?case unfolding sep by simp
next
  case (Cons x a)
  from Cons.prems [of 0] have np: "\<not> prefix sep (x # a @ sep @ r)" by simp
  have "\<And>i. i < length a \<Longrightarrow> \<not> prefix sep (drop i a @ sep @ r)"
    using Cons.prems [of "Suc _"] by simp
  then have "split_at_first sep (a @ sep @ r) = Some (a, r)" by (rule Cons.IH)
  with np show ?case by simp
qed

lemma no_dashes_before:
  assumes nc: "\<not> contains ''---'' y" and i: "i < length (CHR 0x0A # y @ [CHR 0x0A])"
  shows "\<not> prefix ''---'' (drop i (CHR 0x0A # y @ [CHR 0x0A]) @ ''---'' @ r)"
proof
  let ?a = "CHR 0x0A # y @ [CHR 0x0A]"
  assume p: "prefix ''---'' (drop i ?a @ ''---'' @ r)"
  define u where "u = drop i ?a"
  from i have une: "u \<noteq> []" by (simp add: u_def)
  have lastu: "last u = CHR 0x0A" using i unfolding u_def by simp
  obtain v where v: "u = v @ [CHR 0x0A]"
    using une lastu by (metis append_butlast_last_id)
  have a: "?a = take i ?a @ v @ [CHR 0x0A]"
    using v u_def by (metis append_take_drop_id)
  from p have pv: "prefix ''---'' (v @ CHR 0x0A # ''---'' @ r)"
    unfolding u_def [symmetric] v by simp
  show False
  proof (cases v)
    case Nil
    with pv show ?thesis by simp
  next
    case c1: (Cons x1 v1)
    show ?thesis
    proof (cases v1)
      case Nil
      with c1 pv show ?thesis by simp
    next
      case c2: (Cons x2 v2)
      show ?thesis
      proof (cases v2)
        case Nil
        with c1 c2 pv show ?thesis by simp
      next
        case c3: (Cons x3 v3)
        with c1 c2 pv have "v = ''---'' @ v3" by auto
        with a have "CHR 0x0A # y @ [CHR 0x0A] = (take i ?a @ ''---'' @ v3) @ [CHR 0x0A]"
          by simp
        then have eq: "CHR 0x0A # y = take i ?a @ ''---'' @ v3"
          by (metis append_Cons butlast_snoc)
        show ?thesis
        proof (cases "take i ?a")
          case Nil
          with eq show ?thesis by simp
        next
          case (Cons z zs)
          with eq have "y = zs @ ''---'' @ v3" by simp
          then have "contains ''---'' y" unfolding contains_iff by blast
          with nc show ?thesis by simp
        qed
      qed
    qed
  qed
qed

lemma split_frontmatter:
  assumes "\<not> contains ''---'' y"
  shows "split_max ''---'' 2 (''---\<newline>'' @ y @ ''\<newline>---\<newline>'' @ body)
         = [[], CHR 0x0A # y @ [CHR 0x0A], CHR 0x0A # body]"
proof -
  let ?a = "CHR 0x0A # y @ [CHR 0x0A]"
  have two: "(2::nat) = Suc (Suc 0)" by simp
  have first: "split_at_first ''---'' (''---\<newline>'' @ y @ ''\<newline>---\<newline>'' @ body)
               = Some ([], ?a @ ''---'' @ (CHR 0x0A # body))"
    by simp
  have "split_at_first ''---'' (?a @ ''---'' @ (CHR 0x0A # body)) = Some (?a, CHR 0x0A # body)"
    using no_dashes_before [OF assms] by (intro split_at_first_unique) simp_all
  with first show ?thesis unfolding two by (simp del: split_at_first.simps)
qed

text \<open>
  Claim C4, as amended. For a mapping \<open>m\<close> without the key \<open>last_updated\<close>: when the YAML
  text written for \<open>m\<close> extended with \<open>last_updated\<close> (the dump, trimmed) contains no
  \<open>---\<close> and the YAML library reads that text back as a mapping equal to the extended
  one, decoding the encoded frontmatter followed by any body gives that mapping, which is
  \<open>m\<close> with \<open>last_updated\<close> set to the day of the call. (The decoder splits at the first
  two occurrences of \<open>---\<close> wherever they stand, so a value such as \<open>a---b\<close> cuts the
  block short; see the counterexample.)
\<close>

theorem frontmatter_roundtrip:
  assumes "''last_updated'' \<notin> fst ` set m"
    and "\<not> contains ''---'' (strip (dump (m @ [(''last_updated'', YStr today)])))"
    and "load (CHR 0x0A # strip (dump (m @ [(''last_updated'', YStr today)])) @ [CHR 0x0A])
         = Some (YMap m')"
    and "map_of m' = map_of (m @ [(''last_updated'', YStr today)])"
  shows "parse_frontmatter load (build_frontmatter dump today m @ body)
           = (YMap m', CHR 0x0A # body)
       \<and> map_of m' = (map_of m)(''last_updated'' \<mapsto> YStr today)"
proof -
  let ?y = "strip (dump (m @ [(''last_updated'', YStr today)]))"
  have b: "build_frontmatter dump today m @ body = ''---\<newline>'' @ ?y @ ''\<newline>---\<newline>'' @ body"
    using assms(1) by (simp add: build_frontmatter_def Let_def)
  have sp: "split_max ''---'' 2 (''---\<newline>'' @ ?y @ ''\<newline>---\<newline>'' @ body)
         = [[], CHR 0x0A # ?y @ [CHR 0x0A], CHR 0x0A # body]"
    using assms(2) by (rule split_frontmatter)
  have sw: "startswith (''---\<newline>'' @ ?y @ ''\<newline>---\<newline>'' @ body) ''---''"
    by (simp add: startswith_def)
  have mo: "map_of m' = (map_of m)(''last_updated'' \<mapsto> YStr today)"
  proof
    fix k
    from assms(1) have "map_of m ''last_updated'' = None"
      by (simp add: map_of_eq_None_iff)
    then show "map_of m' k = ((map_of m)(''last_updated'' \<mapsto> YStr today)) k"
      unfolding assms(4) by (auto simp: map_add_def split: option.splits)
  qed
  then have "map_of m' ''last_updated'' \<noteq> None" by simp
  then have "m' \<noteq> []" by auto
  then have nf: "\<not> falsy (YMap m')" by (simp add: falsy_def)
  have "parse_frontmatter load (''---\<newline>'' @ ?y @ ''\<newline>---\<newline>'' @ body)
        = (YMap m', CHR 0x0A # body)"
    unfolding parse_frontmatter_def sp Let_def using sw assms(3) nf by simp
  with b mo show ?thesis by simp
qed

theorem frontmatter_roundtrip_witness:
  "parse_frontmatter example_load
     (build_frontmatter example_dump ''2026-11-03'' [(''title'', YStr ''Guide'')] @ ''# Guide\<newline>'')
   = (YMap [(''title'', YStr ''Guide''), (''last_updated'', YStr ''2026-11-03'')],
      ''\<newline># Guide\<newline>'')"
proof -
  let ?m = "[(''title'', YStr ''Guide'')]"
  let ?m' = "[(''title'', YStr ''Guide''), (''last_updated'', YStr ''2026-11-03'')]"
  have d: "?m @ [(''last_updated'', YStr ''2026-11-03'')] = ?m'" by simp
  have h1: "''last_updated'' \<notin> fst ` set ?m" by simp
  have h2: "\<not> contains ''---''
              (strip (example_dump (?m @ [(''last_updated'', YStr ''2026-11-03'')])))"
    unfolding d by code_simp
  have h3: "example_load (CHR 0x0A
              # strip (example_dump (?m @ [(''last_updated'', YStr ''2026-11-03'')]))
              @ [CHR 0x0A]) = Some (YMap ?m')"
    unfolding d by code_simp
  have h4: "map_of ?m' = map_of (?m @ [(''last_updated'', YStr ''2026-11-03'')])"
    unfolding d ..
  from frontmatter_roundtrip [where m = ?m and dump = example_dump
      and today = "''2026-11-03''" and load = example_load and m' = ?m'
      and body = "''# Guide\<newline>''", OF h1 h2 h3 h4]
  show ?thesis by simp
qed

theorem frontmatter_roundtrip_counterexample:
  "''last_updated'' \<notin> fst ` set [(''title'', YStr ''a---b'')]
   \<and> example_load (CHR 0x0A
        # strip (example_dump [(''title'', YStr ''a---b''), (''last_updated'', YStr ''2026-11-03'')])
        @ [CHR 0x0A])
      = Some (YMap [(''title'', YStr ''a---b''), (''last_updated'', YStr ''2026-11-03'')])
   \<and> fst (parse_frontmatter example_load
        (build_frontmatter example_dump ''2026-11-03'' [(''title'', YStr ''a---b'')] @ ''# T\<newline>''))
      = YMap [(''title'', YStr ''a'')]"
  by code_simp

section \<open>Paths and the sandbox\<close>

lemma split_on_not_Nil [simp]: "split_on c s \<noteq> []"
  by (induction s) (auto split: list.splits)

lemma split_on_append: "split_on c (a @ c # b) = split_on c a @ split_on c b"
proof (induction a)
  case Nil
  then show ?case by simp
next
  case (Cons x a)
  show ?case
  proof (cases "x = c")
    case True
    then show ?thesis using Cons by simp
  next
    case False
    obtain l ls where l: "split_on c a = l # ls"
      using split_on_not_Nil [of c a] by (cases "split_on c a") auto
    with False Cons show ?thesis by simp
  qed
qed

lemma split_on_snoc: "split_on c (a @ [c]) = split_on c a @ [[]]"
  using split_on_append [of c a "[]"] by simp

lemma split_on_slashfree: "x \<in> set (split_on c s) \<Longrightarrow> c \<notin> set x"
proof (induction s arbitrary: x)
  case Nil
  then show ?case by simp
next
  case (Cons y s)
  show ?case
  proof (cases "y = c")
    case True
    with Cons show ?thesis by auto
  next
    case False
    obtain l ls where l: "split_on c s = l # ls"
      using split_on_not_Nil [of c s] by (cases "split_on c s") auto
    with False Cons.prems have "x = y # l \<or> x \<in> set ls" by simp
    then show ?thesis
    proof
      assume "x = y # l"
      moreover have "c \<notin> set l" using Cons.IH [of l] l by simp
      ultimately show ?thesis using False by auto
    next
      assume "x \<in> set ls"
      then show ?thesis using Cons.IH [of x] l by simp
    qed
  qed
qed

lemma join_split_on: "join [c] (split_on c s) = s"
proof (induction s)
  case Nil
  then show ?case by simp
next
  case (Cons y s)
  show ?case
  proof (cases "y = c")
    case True
    then show ?thesis using Cons by (simp add: join_Nil_hd)
  next
    case False
    obtain l ls where l: "split_on c s = l # ls"
      using split_on_not_Nil [of c s] by (cases "split_on c s") auto
    with False Cons show ?thesis by (simp add: join_Cons_hd)
  qed
qed

lemma in_join: "x \<in> set xs \<Longrightarrow> \<exists>p q. join sep xs = p @ x @ q"
proof (induction sep xs rule: join.induct)
  case (1 sep)
  then show ?case by simp
next
  case (2 sep y)
  then have "join sep [y] = [] @ x @ []" by simp
  then show ?case by blast
next
  case (3 sep y z zs)
  show ?case
  proof (cases "x = y")
    case True
    then have "join sep (y # z # zs) = [] @ x @ (sep @ join sep (z # zs))" by simp
    then show ?thesis by blast
  next
    case False
    with 3 obtain p q where "join sep (z # zs) = p @ x @ q" by auto
    then have "join sep (y # z # zs) = (y @ sep @ p) @ x @ q" by simp
    then show ?thesis by blast
  qed
qed

lemma split_on_contains: "x \<in> set (split_on c s) \<Longrightarrow> contains x s"
proof -
  assume "x \<in> set (split_on c s)"
  then obtain p q where "join [c] (split_on c s) = p @ x @ q" using in_join by blast
  then show ?thesis unfolding join_split_on contains_iff by blast
qed

lemma split_on_join:
  "xs \<noteq> [] \<Longrightarrow> \<forall>x\<in>set xs. c \<notin> set x \<Longrightarrow> split_on c (join [c] xs) = xs"
proof (induction "[c]" xs rule: join.induct)
  case 1
  then show ?case by simp
next
  case (2 x)
  then have "c \<notin> set x" by simp
  then have "split_on c x = [x]" by (induction x) auto
  then show ?case by simp
next
  case (3 x y ys)
  then have cx: "c \<notin> set x" by simp
  have "split_on c (u @ c # r) = u # split_on c r" if "c \<notin> set u" for u r
    using that
  proof (induction u)
    case Nil
    then show ?case by simp
  next
    case (Cons a u)
    then show ?case by auto
  qed
  with cx have "split_on c (x @ c # join [c] (y # ys)) = x # split_on c (join [c] (y # ys))"
    by blast
  with 3 show ?case by simp
qed

lemma fold_norm_nodots:
  "''..'' \<notin> set xs \<Longrightarrow>
   fold (\<lambda>c new. norm_step n new c) xs acc = acc @ filter (\<lambda>c. c \<noteq> [] \<and> c \<noteq> ''.'') xs"
proof (induction xs arbitrary: acc)
  case Nil
  then show ?case by simp
next
  case (Cons x xs)
  then have "x \<noteq> ''..''" and "''..'' \<notin> set xs" by auto
  then show ?case using Cons.IH by (simp add: norm_step_def)
qed

lemma norm_step_wf:
  assumes "\<forall>x\<in>set acc. x \<noteq> [] \<and> CHR ''/'' \<notin> set x" and "CHR ''/'' \<notin> set c"
  shows "\<forall>x\<in>set (norm_step n acc c). x \<noteq> [] \<and> CHR ''/'' \<notin> set x"
proof -
  have "set (butlast acc) \<subseteq> set acc" by (meson in_set_butlastD subsetI)
  with assms show ?thesis by (auto simp: norm_step_def)
qed

lemma fold_norm_wf:
  "\<forall>x\<in>set acc. x \<noteq> [] \<and> CHR ''/'' \<notin> set x \<Longrightarrow> \<forall>x\<in>set xs. CHR ''/'' \<notin> set x \<Longrightarrow>
   \<forall>x\<in>set (fold (\<lambda>c new. norm_step n new c) xs acc). x \<noteq> [] \<and> CHR ''/'' \<notin> set x"
proof (induction xs arbitrary: acc)
  case Nil
  then show ?case by simp
next
  case (Cons y ys)
  have "\<forall>x\<in>set (norm_step n acc y). x \<noteq> [] \<and> CHR ''/'' \<notin> set x"
    using Cons.prems by (intro norm_step_wf) auto
  then show ?case using Cons.IH [of "norm_step n acc y"] Cons.prems(2) by simp
qed

lemma fold_norm_join:
  assumes "wd \<noteq> []" "\<not> startswith s ''/''"
  shows "fold (\<lambda>c new. norm_step n new c) (split_on CHR ''/'' (path_join wd s)) []
         = fold (\<lambda>c new. norm_step n new c) (split_on CHR ''/'' s)
             (fold (\<lambda>c new. norm_step n new c) (split_on CHR ''/'' wd) [])"
proof (cases "endswith wd ''/''")
  case True
  then obtain w where w: "wd = w @ ''/''" by (auto simp: endswith_def suffix_def)
  have pj: "path_join wd s = w @ CHR ''/'' # s"
    using assms True w by (simp add: path_join_def)
  have "split_on CHR ''/'' wd = split_on CHR ''/'' w @ [[]]"
    unfolding w using split_on_snoc [of "CHR ''/''" w] by simp
  then show ?thesis unfolding pj split_on_append by (simp add: norm_step_def)
next
  case False
  have pj: "path_join wd s = wd @ CHR ''/'' # s"
    using assms False by (simp add: path_join_def)
  show ?thesis unfolding pj split_on_append by simp
qed

lemma initial_slashes_dot:
  assumes "startswith q ''/''"
  shows "initial_slashes (q @ CHR ''.'' # r) = initial_slashes (q @ ''.'')"
proof -
  from assms obtain q1 where q: "q = CHR ''/'' # q1"
    by (cases q) (auto simp: startswith_def)
  show ?thesis
  proof (cases q1)
    case Nil
    with q show ?thesis by (simp add: initial_slashes_def startswith_def)
  next
    case c1: (Cons x1 q2)
    show ?thesis
    proof (cases q2)
      case Nil
      with q c1 show ?thesis by (simp add: initial_slashes_def startswith_def)
    next
      case (Cons x2 q3)
      with q c1 show ?thesis by (simp add: initial_slashes_def startswith_def)
    qed
  qed
qed

lemma normpath_abs:
  assumes "startswith p ''/''"
  shows "normpath p = replicate (initial_slashes p) CHR ''/''
           @ join ''/'' (fold (\<lambda>c new. norm_step (initial_slashes p) new c)
                          (split_on CHR ''/'' p) [])"
    and "1 \<le> initial_slashes p"
proof -
  from assms have ne: "p \<noteq> []" by (auto simp: startswith_def)
  from assms show i: "1 \<le> initial_slashes p" by (simp add: initial_slashes_def)
  then have "replicate (initial_slashes p) CHR ''/'' \<noteq> []" by auto
  then show "normpath p = replicate (initial_slashes p) CHR ''/''
           @ join ''/'' (fold (\<lambda>c new. norm_step (initial_slashes p) new c)
                          (split_on CHR ''/'' p) [])"
    using ne by (simp add: normpath_def Let_def)
qed

lemma path_parts_abs:
  assumes "\<forall>x\<in>set xs. x \<noteq> [] \<and> CHR ''/'' \<notin> set x"
  shows "path_parts (replicate k CHR ''/'' @ join ''/'' xs) = xs"
proof -
  have j: "path_parts (join ''/'' xs) = xs"
  proof (cases xs)
    case Nil
    then show ?thesis by (simp add: path_parts_def)
  next
    case (Cons y ys)
    then have "split_on CHR ''/'' (join ''/'' xs) = xs"
      using assms split_on_join [of xs "CHR ''/''"] by simp
    then show ?thesis using assms by (simp add: path_parts_def filter_id_conv)
  qed
  have "path_parts (replicate k CHR ''/'' @ s) = path_parts s" for s
    by (induction k) (simp_all add: path_parts_def)
  with j show ?thesis by simp
qed

lemma lstrip_no_slash: "\<not> startswith (lstrip_chars [CHR ''/'', CHR 0x5C] s) ''/''"
proof
  let ?c = "lstrip_chars [CHR ''/'', CHR 0x5C] s"
  assume "startswith ?c ''/''"
  then obtain r where r: "?c = CHR ''/'' # r" by (auto simp: startswith_def prefix_def)
  then have ne: "dropWhile (\<lambda>c. c \<in> set [CHR ''/'', CHR 0x5C]) s \<noteq> []"
    by (simp add: lstrip_chars_def)
  from hd_dropWhile [OF ne] r show False by (simp add: lstrip_chars_def)
qed

lemma join_prefix: "prefix (join sep xs) (join sep (xs @ ys))"
proof (induction sep xs rule: join.induct)
  case (1 sep)
  then show ?case by simp
next
  case (2 sep x)
  then show ?case by (cases ys) simp_all
next
  case (3 sep x y zs)
  then show ?case by simp
qed

lemma abspath_under:
  assumes wd: "startswith wd ''/''" and nd: "\<not> contains ''..'' clean"
    and ns: "\<not> startswith clean ''/''"
  shows "inside_root (abspath wd KNOWLEDGE_ROOT) (abspath wd (path_join KNOWLEDGE_ROOT clean))"
    and "startswith (abspath wd (path_join KNOWLEDGE_ROOT clean)) (abspath wd KNOWLEDGE_ROOT)"
proof -
  from wd have wdne: "wd \<noteq> []" by (auto simp: startswith_def)
  let ?x = "CHR ''.'' # CHR ''/'' # clean"
  have x: "path_join KNOWLEDGE_ROOT clean = ?x"
    using ns by (simp add: path_join_def KNOWLEDGE_ROOT_def endswith_def suffix_to_prefix)
  have nsx: "\<not> startswith ?x ''/''" and nsd: "\<not> startswith ''.'' ''/''"
    by (simp_all add: startswith_def)
  define q where "q = (if endswith wd ''/'' then wd else wd @ ''/'')"
  have qs: "startswith q ''/''" using wd by (auto simp: q_def startswith_def prefix_def)
  have p1: "path_join wd ''.'' = q @ ''.''" and p2: "path_join wd ?x = q @ CHR ''.'' # (CHR ''/'' # clean)"
    using wdne by (simp_all add: path_join_def q_def startswith_def)
  define n where "n = initial_slashes (q @ ''.'')"
  have n2: "initial_slashes (q @ CHR ''.'' # (CHR ''/'' # clean)) = n"
    unfolding n_def using qs by (rule initial_slashes_dot)
  have s1: "startswith (q @ ''.'') ''/''" and s2: "startswith (q @ CHR ''.'' # (CHR ''/'' # clean)) ''/''"
    using qs by (auto simp: startswith_def prefix_def)
  define R where "R = fold (\<lambda>c new. norm_step n new c) (split_on CHR ''/'' wd) []"
  define F where "F = filter (\<lambda>c. c \<noteq> [] \<and> c \<noteq> ''.'') (split_on CHR ''/'' clean)"
  have nodots: "''..'' \<notin> set (split_on CHR ''/'' clean)"
    using nd split_on_contains by blast
  have c1: "fold (\<lambda>c new. norm_step n new c) (split_on CHR ''/'' (path_join wd ''.'')) [] = R"
    unfolding fold_norm_join [OF wdne nsd] R_def [symmetric] by (simp add: norm_step_def)
  have sx: "split_on CHR ''/'' ?x = ''.'' # split_on CHR ''/'' clean"
    using split_on_append [of "CHR ''/''" "''.''" clean] by simp
  have c2: "fold (\<lambda>c new. norm_step n new c) (split_on CHR ''/'' (path_join wd ?x)) [] = R @ F"
    unfolding fold_norm_join [OF wdne nsx] R_def [symmetric] sx F_def
    using fold_norm_nodots [OF nodots] by (simp add: norm_step_def)
  have root: "abspath wd KNOWLEDGE_ROOT = replicate n CHR ''/'' @ join ''/'' R"
    using normpath_abs(1) [OF s1] c1
    by (simp add: abspath_def KNOWLEDGE_ROOT_def startswith_def p1 n_def)
  have tgt: "abspath wd (path_join KNOWLEDGE_ROOT clean) = replicate n CHR ''/'' @ join ''/'' (R @ F)"
    unfolding x using normpath_abs(1) [OF s2] c2 nsx
    by (simp add: abspath_def p2 n2)
  have wfR: "\<forall>x\<in>set R. x \<noteq> [] \<and> CHR ''/'' \<notin> set x"
    unfolding R_def by (intro fold_norm_wf) (auto dest: split_on_slashfree)
  have wfF: "\<forall>x\<in>set F. x \<noteq> [] \<and> CHR ''/'' \<notin> set x"
    unfolding F_def by (auto dest: split_on_slashfree)
  have pr: "path_parts (abspath wd KNOWLEDGE_ROOT) = R"
    unfolding root using wfR by (rule path_parts_abs)
  have pt: "path_parts (abspath wd (path_join KNOWLEDGE_ROOT clean)) = R @ F"
    unfolding tgt using wfR wfF by (intro path_parts_abs) auto
  have "''..'' \<notin> set F" "''.'' \<notin> set F" using nodots by (auto simp: F_def)
  then show "inside_root (abspath wd KNOWLEDGE_ROOT)
               (abspath wd (path_join KNOWLEDGE_ROOT clean))"
    unfolding inside_root_def pr pt by simp
  show "startswith (abspath wd (path_join KNOWLEDGE_ROOT clean)) (abspath wd KNOWLEDGE_ROOT)"
    unfolding root tgt startswith_def using join_prefix [of "''/''" R F] by simp
qed

lemma validate_inside:
  assumes "startswith wd ''/''" "validate_path wd p = Inr t"
  shows "inside_root (abspath wd KNOWLEDGE_ROOT) t"
proof -
  let ?clean = "lstrip_chars [CHR ''/'', CHR 0x5C] (strip p)"
  from assms(2) have nd: "\<not> contains ''..'' ?clean"
    and t: "t = abspath wd (path_join KNOWLEDGE_ROOT ?clean)"
    by (auto simp: validate_path_def Let_def split: if_splits)
  show ?thesis unfolding t using assms(1) nd lstrip_no_slash by (rule abspath_under(1))
qed

lemma validate_in_bounds:
  assumes "startswith wd ''/''"
  shows "validate_path wd p \<noteq> Inl (OutOfBounds x)"
proof -
  let ?clean = "lstrip_chars [CHR ''/'', CHR 0x5C] (strip p)"
  show ?thesis
  proof (cases "contains ''..'' ?clean")
    case True
    then show ?thesis by (simp add: validate_path_def Let_def)
  next
    case False
    with assms have "startswith (abspath wd (path_join KNOWLEDGE_ROOT ?clean))
                       (abspath wd KNOWLEDGE_ROOT)"
      using lstrip_no_slash by (rule abspath_under(2))
    with False show ?thesis by (simp add: validate_path_def Let_def)
  qed
qed

lemma validate_rejects:
  "contains ''..'' (lstrip_chars [CHR ''/'', CHR 0x5C] (strip p)) \<Longrightarrow>
   validate_path wd p = Inl (PathTraversal (lstrip_chars [CHR ''/'', CHR 0x5C] (strip p)))"
  by (simp add: validate_path_def Let_def)

text \<open>
  Claim C3, as amended. Paths are POSIX path strings (symbolic links are not followed)
  and the working directory is absolute. \<open>_validate_path\<close> rejects \<open>../secret.md\<close>, and
  every path whose trimmed form contains \<open>..\<close>, with the path traversal error; it never
  fails with the out-of-bounds error; every path that it accepts resolves to the
  knowledge root or below it, component by component; and so does the document that a
  tool works on, since the tools validate the path that \<open>_smart_resolve_path\<close> returns.
\<close>

theorem path_sandbox:
  assumes "startswith (cwd fs) ''/''"
  shows "validate_path (cwd fs) ''../secret.md'' = Inl (PathTraversal ''../secret.md'')
       \<and> (contains ''..'' (lstrip_chars [CHR ''/'', CHR 0x5C] (strip p)) \<longrightarrow>
            validate_path (cwd fs) p
              = Inl (PathTraversal (lstrip_chars [CHR ''/'', CHR 0x5C] (strip p))))
       \<and> (\<forall>x. validate_path (cwd fs) p \<noteq> Inl (OutOfBounds x))
       \<and> (\<forall>t. validate_path (cwd fs) p = Inr t \<longrightarrow>
              inside_root (abspath (cwd fs) KNOWLEDGE_ROOT) t)
       \<and> (\<forall>rp ap raw. target_document fs p = Some (rp, ap, raw) \<longrightarrow>
              inside_root (abspath (cwd fs) KNOWLEDGE_ROOT) ap)"
proof -
  have c: "lstrip_chars [CHR ''/'', CHR 0x5C] (strip ''../secret.md'') = ''../secret.md''"
    by code_simp
  have "contains ''..'' ''../secret.md''" by code_simp
  then have a: "validate_path (cwd fs) ''../secret.md'' = Inl (PathTraversal ''../secret.md'')"
    using validate_rejects [of "''../secret.md''" "cwd fs"] unfolding c by simp
  have d: "inside_root (abspath (cwd fs) KNOWLEDGE_ROOT) ap"
    if "target_document fs p = Some (rp, ap, raw)" for rp ap raw
  proof -
    from that have "validate_path (cwd fs) rp = Inr ap"
      by (auto simp: target_document_def split: sum.splits)
    with assms show ?thesis by (rule validate_inside)
  qed
  from a validate_rejects [of p "cwd fs"] validate_inside [OF assms, of p] d
    validate_in_bounds [OF assms, of p]
  show ?thesis by blast
qed

theorem path_sandbox_witness:
  "validate_path ''/kb'' ''notes/../../etc/passwd'' = Inl (PathTraversal ''notes/../../etc/passwd'')
   \<and> inside_root ''/kb'' ''/kb/secret.md''"
proof -
  have h: "startswith (cwd example_fs_secret) ''/''" by code_simp
  have w: "cwd example_fs_secret = ''/kb''" by code_simp
  have r: "abspath ''/kb'' KNOWLEDGE_ROOT = ''/kb''" by code_simp
  have c1: "lstrip_chars [CHR ''/'', CHR 0x5C] (strip ''notes/../../etc/passwd'')
            = ''notes/../../etc/passwd''" by code_simp
  have h1: "contains ''..'' (lstrip_chars [CHR ''/'', CHR 0x5C] (strip ''notes/../../etc/passwd''))"
    by code_simp
  have h2: "validate_path (cwd example_fs_secret) ''secret.md'' = Inr ''/kb/secret.md''"
    by code_simp
  have h3: "target_document example_fs_secret ''secret.md''
            = Some (''secret.md'', ''/kb/secret.md'', ''# S\<newline>'')"
    by code_simp
  from path_sandbox [OF h, of "''notes/../../etc/passwd''"] h1
  have a: "validate_path ''/kb'' ''notes/../../etc/passwd''
           = Inl (PathTraversal ''notes/../../etc/passwd'')"
    unfolding w c1 by blast
  from path_sandbox [OF h, of "''secret.md''"] h2 h3
  have "inside_root ''/kb'' ''/kb/secret.md''" unfolding w r by blast
  with a show ?thesis by simp
qed

theorem path_sandbox_counterexample:
  "smart_resolve_path example_fs_secret ''../secret.md'' = Inr ''secret.md''
   \<and> target_document example_fs_secret ''../secret.md''
     = Some (''secret.md'', ''/kb/secret.md'', ''# S\<newline>'')
   \<and> fst (update_knowledge_section ''20260101_000000'' ''../secret.md'' ''APPEND'' ''APPEND''
            ''more'' example_fs_secret) = Appended
   \<and> map_of (files (snd (update_knowledge_section ''20260101_000000'' ''../secret.md'' ''APPEND''
            ''APPEND'' ''more'' example_fs_secret))) ''/kb/secret.md''
     = Some ''# S\<newline>\<newline>\<newline>more''"
  by code_simp

lemma split_on_slashfree_id: "c \<notin> set x \<Longrightarrow> split_on c x = [x]"
  by (induction x) auto

lemma join_snoc:
  "join sep (xs @ [x]) = (if xs = [] then x else join sep xs @ sep @ x)"
proof (induction sep xs rule: join.induct)
  case (1 sep)
  then show ?case by simp
next
  case (2 sep y)
  then show ?case by simp
next
  case (3 sep y z zs)
  then show ?case by simp
qed

lemma join_last:
  "xs \<noteq> [] \<Longrightarrow> last xs \<noteq> [] \<Longrightarrow> join sep xs \<noteq> [] \<and> last (join sep xs) = last (last xs)"
proof (induction sep xs rule: join.induct)
  case (1 sep)
  then show ?case by simp
next
  case (2 sep y)
  then show ?case by simp
next
  case (3 sep y z zs)
  then show ?case by simp
qed

lemma dir_prefix_abs:
  assumes "1 \<le> n" "\<forall>x\<in>set C. x \<noteq> [] \<and> CHR ''/'' \<notin> set x"
  shows "dir_prefix (replicate n CHR ''/'' @ join ''/'' C) @ name
         = replicate n CHR ''/'' @ join ''/'' (C @ [name])"
proof (cases "C = []")
  case True
  from assms(1) obtain m where "n = Suc m" by (cases n) auto
  then have "replicate n CHR ''/'' = replicate m CHR ''/'' @ ''/''"
    by (simp add: replicate_append_same)
  then have "endswith (replicate n CHR ''/'') ''/''" by (simp add: endswith_def)
  with True show ?thesis by (simp add: dir_prefix_def)
next
  case False
  with assms(2) have "last C \<noteq> []" "CHR ''/'' \<notin> set (last C)" by auto
  with False have j: "join ''/'' C \<noteq> []" "last (join ''/'' C) \<noteq> CHR ''/''"
    using join_last [of C "''/''"] by (auto dest: last_in_set)
  then have "last (replicate n CHR ''/'' @ join ''/'' C) \<noteq> CHR ''/''" by simp
  then have "\<not> endswith (replicate n CHR ''/'' @ join ''/'' C) ''/''"
    by (auto simp: endswith_def suffix_def)
  with False show ?thesis by (simp add: dir_prefix_def join_snoc)
qed

lemma abspath_child:
  assumes wd: "startswith wd ''/''" and h: "h = CHR ''.'' # h1"
    and nm: "CHR ''/'' \<notin> set name" "name \<noteq> []" "name \<noteq> ''.''" "name \<noteq> ''..''"
  shows "abspath wd (path_join h name) = dir_prefix (abspath wd h) @ name"
proof -
  from wd have wdne: "wd \<noteq> []" by (auto simp: startswith_def)
  from nm(1,2) have nsn: "\<not> startswith name ''/''"
    by (cases name) (auto simp: startswith_def)
  define x where "x = path_join h name"
  have nsh: "\<not> startswith h ''/''" unfolding h by (simp add: startswith_def)
  have xdot: "\<exists>r. x = CHR ''.'' # r"
    unfolding x_def h using nsn by (simp add: path_join_def)
  then obtain r where xr: "x = CHR ''.'' # r" by blast
  then have nsx: "\<not> startswith x ''/''" by (simp add: startswith_def)
  define q where "q = (if endswith wd ''/'' then wd else wd @ ''/'')"
  have qs: "startswith q ''/''" using wd by (auto simp: q_def startswith_def prefix_def)
  have p1: "path_join wd h = q @ CHR ''.'' # h1" and p2: "path_join wd x = q @ CHR ''.'' # r"
    using wdne unfolding h xr by (simp_all add: path_join_def q_def startswith_def)
  define n where "n = initial_slashes (q @ ''.'')"
  have n1: "initial_slashes (q @ CHR ''.'' # h1) = n" and n2: "initial_slashes (q @ CHR ''.'' # r) = n"
    unfolding n_def using qs by (rule initial_slashes_dot)+
  have s1: "startswith (q @ CHR ''.'' # h1) ''/''" and s2: "startswith (q @ CHR ''.'' # r) ''/''"
    using qs by (auto simp: startswith_def prefix_def)
  define R where "R = fold (\<lambda>c new. norm_step n new c) (split_on CHR ''/'' wd) []"
  define C where "C = fold (\<lambda>c new. norm_step n new c) (split_on CHR ''/'' h) R"
  have sn: "split_on CHR ''/'' name = [name]" using nm(1) by (rule split_on_slashfree_id)
  have step: "norm_step n C name = C @ [name]" using nm by (simp add: norm_step_def)
  have cx: "fold (\<lambda>c new. norm_step n new c) (split_on CHR ''/'' x) R = C @ [name]"
  proof (cases "endswith h ''/''")
    case True
    then obtain h0 where h0: "h = h0 @ ''/''" by (auto simp: endswith_def suffix_def)
    have "x = h0 @ CHR ''/'' # name"
      unfolding x_def using True nsn h0 by (simp add: path_join_def)
    then have sx: "split_on CHR ''/'' x = split_on CHR ''/'' h0 @ [name]"
      by (simp add: split_on_append sn)
    have sh: "split_on CHR ''/'' h = split_on CHR ''/'' h0 @ [[]]"
      unfolding h0 using split_on_snoc [of "CHR ''/''" h0] by simp
    have "C = fold (\<lambda>c new. norm_step n new c) (split_on CHR ''/'' h0) R"
      unfolding C_def sh by (simp add: norm_step_def)
    then show ?thesis unfolding sx using step by simp
  next
    case False
    have "x = h @ CHR ''/'' # name"
      unfolding x_def using False nsn h by (simp add: path_join_def)
    then have sx: "split_on CHR ''/'' x = split_on CHR ''/'' h @ [name]"
      by (simp add: split_on_append sn)
    show ?thesis unfolding sx using step by (simp add: C_def)
  qed
  have c1: "fold (\<lambda>c new. norm_step n new c) (split_on CHR ''/'' (path_join wd h)) [] = C"
    unfolding fold_norm_join [OF wdne nsh] R_def [symmetric] C_def ..
  have c2: "fold (\<lambda>c new. norm_step n new c) (split_on CHR ''/'' (path_join wd x)) [] = C @ [name]"
    unfolding fold_norm_join [OF wdne nsx] R_def [symmetric] by (rule cx)
  have a1: "abspath wd h = replicate n CHR ''/'' @ join ''/'' C"
    using normpath_abs(1) [OF s1] c1 nsh by (simp add: abspath_def p1 n1)
  have a2: "abspath wd x = replicate n CHR ''/'' @ join ''/'' (C @ [name])"
    using normpath_abs(1) [OF s2] c2 nsx by (simp add: abspath_def p2 n2)
  have wfR: "\<forall>x\<in>set R. x \<noteq> [] \<and> CHR ''/'' \<notin> set x"
    unfolding R_def by (intro fold_norm_wf) (auto dest: split_on_slashfree)
  have wfC: "\<forall>x\<in>set C. x \<noteq> [] \<and> CHR ''/'' \<notin> set x"
    unfolding C_def using wfR by (intro fold_norm_wf) (auto dest: split_on_slashfree)
  have "1 \<le> n" unfolding n1 [symmetric] using s1 by (rule normpath_abs(2))
  then have "dir_prefix (replicate n CHR ''/'' @ join ''/'' C) @ name
             = replicate n CHR ''/'' @ join ''/'' (C @ [name])"
    using wfC by (rule dir_prefix_abs)
  then show ?thesis unfolding x_def [symmetric] a1 a2 by simp
qed

section \<open>Viewing the changes\<close>

lemma keys_write_file:
  "set (map fst (files (write_file k t fs))) = insert k (set (map fst (files fs)))"
proof (cases "map_of (files fs) k")
  case None
  then show ?thesis by (auto simp: write_file_def)
next
  case (Some v)
  then have "k \<in> fst ` set (files fs)" by (metis map_of_eq_None_iff option.distinct(1))
  moreover have "map fst (map (\<lambda>(q, t'). if q = k then (q, t) else (q, t')) (files fs))
                 = map fst (files fs)"
    by (induction "files fs") auto
  ultimately show ?thesis using Some by (auto simp: write_file_def)
qed

lemma dirs_write_file [simp]: "dirs (write_file k t fs) = dirs fs"
  by (simp add: write_file_def)

lemma set_listdir:
  "set (listdir fs a)
   = {n. n \<noteq> [] \<and> (\<exists>q\<in>set (map fst (files fs)) \<union> set (dirs fs).
           prefix (dir_prefix a) q
           \<and> n = takeWhile (\<lambda>c. c \<noteq> CHR ''/'') (drop (length (dir_prefix a)) q))}"
  by (auto simp: listdir_def)

lemma sorted_le_last:
  fixes x :: "'a::linorder"
  assumes "sorted ys" "x \<in> set ys"
  shows "x \<le> last ys"
proof -
  from assms(2) have ne: "ys \<noteq> []" by auto
  then have ys: "ys = butlast ys @ [last ys]" by simp
  with assms(1) have "sorted (butlast ys @ [last ys])" by simp
  then have "\<forall>a\<in>set (butlast ys). a \<le> last ys" by (simp add: sorted_append)
  moreover from assms(2) ys have "x \<in> set (butlast ys) \<or> x = last ys"
    by (metis Un_iff empty_iff empty_set set_ConsD set_append)
  ultimately show ?thesis by auto
qed

lemma last_sort:
  fixes m :: "'a::linorder"
  assumes "m \<in> set xs" "\<forall>x\<in>set xs. x \<le> m"
  shows "last (sort xs) = m"
proof -
  have "set (sort xs) = set xs" by simp
  with assms(1) have ne: "sort xs \<noteq> []" by (metis empty_iff empty_set)
  have "m \<in> set (sort xs)" using assms(1) by simp
  then have "m \<le> last (sort xs)" using sorted_sort [of xs] sorted_le_last by blast
  moreover have "last (sort xs) \<in> set xs" using ne last_in_set by fastforce
  ultimately show ?thesis using assms(2) by (meson order_antisym)
qed

lemma history_dir_dot: "\<exists>h1. history_dir_of rp = CHR ''.'' # h1"
proof -
  let ?safe = "replace_char (CHR 0x5C) CHR ''_'' (replace_char CHR ''/'' CHR ''_'' rp)"
  have "CHR ''/'' \<notin> set ?safe" by (auto simp: replace_char_def)
  then have ns: "\<not> startswith ?safe ''/''"
    by (cases ?safe) (auto simp: startswith_def)
  have hd: "HISTORY_DIR = ''./.history''" by code_simp
  have "history_dir_of rp = ''./.history/'' @ ?safe"
    unfolding history_dir_of_def hd using ns
    by (simp add: path_join_def endswith_def suffix_to_prefix)
  then show ?thesis by simp
qed

lemma snapshot_path_alt: "snapshot_path rp ts = path_join (history_dir_of rp) (ts @ ''.snap'')"
  by (simp add: snapshot_path_def history_dir_of_def)

lemma snapshot_key:
  assumes "startswith wd ''/''" "CHR ''/'' \<notin> set ts"
  shows "abspath wd (snapshot_path rp ts)
         = dir_prefix (abspath wd (history_dir_of rp)) @ ts @ ''.snap''"
proof -
  obtain h1 where h: "history_dir_of rp = CHR ''.'' # h1" using history_dir_dot by blast
  have n1: "CHR ''/'' \<notin> set (ts @ ''.snap'')" using assms(2) by simp
  have n2: "ts @ ''.snap'' \<noteq> []" by simp
  have n3: "ts @ ''.snap'' \<noteq> ''.''"
  proof
    assume "ts @ ''.snap'' = ''.''"
    then have "length (ts @ ''.snap'') = length ''.''" by (rule arg_cong)
    then show False by simp
  qed
  have n4: "ts @ ''.snap'' \<noteq> ''..''"
  proof
    assume "ts @ ''.snap'' = ''..''"
    then have "length (ts @ ''.snap'') = length ''..''" by (rule arg_cong)
    then show False by simp
  qed
  show ?thesis unfolding snapshot_path_alt using assms(1) h n1 n2 n3 n4 by (rule abspath_child)
qed

lemma ensure_history_dir_alt:
  "ensure_history_dir rp fs
   = map_option (\<lambda>fs'. (history_dir_of rp, fs'))
       (makedirs (abspath (cwd fs) (history_dir_of rp)) fs)"
  by (simp add: ensure_history_dir_def history_dir_of_def Let_def)

lemma create_snapshot_alt:
  "create_snapshot ts rp ap fs =
     (if path_exists fs ap then
        (case makedirs (abspath (cwd fs) (history_dir_of rp)) fs of
           None \<Rightarrow> (None, fs)
         | Some fs1 \<Rightarrow>
             (case copy2 ap (abspath (cwd fs1) (snapshot_path rp ts)) fs1 of
                None \<Rightarrow> (None, fs1)
              | Some fs2 \<Rightarrow> (Some (Some (snapshot_path rp ts)), fs2)))
      else (Some None, fs))"
  by (simp add: create_snapshot_def ensure_history_dir_alt snapshot_path_alt Let_def
      split: option.splits)

lemma update_written:
  assumes "target_document fs path = Some (rp, ap, raw)"
    and "update_knowledge_section ts path nid e new_content fs = (msg, fs2)"
    and "msg = Appended \<or> msg = Updated a b c d"
  shows "\<exists>s fs1 cur. create_snapshot ts rp ap fs = (Some s, fs1) \<and> fs2 = write_file ap cur fs1"
proof -
  from assms(1) have r: "smart_resolve_path fs path = Inr rp" "validate_path (cwd fs) rp = Inr ap"
    "map_of (files fs) ap = Some raw"
    by (auto simp: target_document_def split: sum.splits)
  then have ex: "path_exists fs ap" by (simp add: path_exists_def is_file_def)
  obtain so fs1 where cs: "create_snapshot ts rp ap fs = (so, fs1)"
    by (cases "create_snapshot ts rp ap fs")
  have "so \<noteq> None"
  proof
    assume "so = None"
    with cs r ex have "update_knowledge_section ts path nid e new_content fs = (UpdateFailed, fs1)"
      by (simp add: update_knowledge_section_def)
    with assms(2,3) show False by auto
  qed
  then obtain s where s: "so = Some s" by auto
  note upd = update_on_document [OF assms(1) cs [unfolded s], of nid e new_content]
  show ?thesis
  proof (cases "nid = ''APPEND''")
    case True
    with upd assms(2) have "fs2 = write_file ap (raw @ ''\<newline>\<newline>'' @ new_content) fs1" by simp
    with cs s show ?thesis by blast
  next
    case False
    obtain m c where rs: "replace_section (universal_newlines raw) nid e new_content = (m, c)"
      by (cases "replace_section (universal_newlines raw) nid e new_content")
    from upd False rs assms(2) have m: "m = msg" by (auto split: option.splits)
    have "c \<noteq> None"
    proof
      assume "c = None"
      with rs m assms(3) show False
        by (auto simp: replace_section_spec split: option.splits if_splits)
    qed
    then obtain cur where "c = Some cur" by auto
    with upd False rs assms(2) have "fs2 = write_file ap cur fs1" by simp
    with cs s show ?thesis by blast
  qed
qed

lemma snapshot_written:
  assumes cs: "create_snapshot ts rp ap fs = (Some s, fs1)"
    and raw: "map_of (files fs) ap = Some raw"
    and wd: "startswith (cwd fs) ''/''" and ts: "CHR ''/'' \<notin> set ts"
    and nd: "\<not> is_dir fs (abspath (cwd fs) (snapshot_path rp ts))"
  shows "\<exists>fs0. makedirs (abspath (cwd fs) (history_dir_of rp)) fs = Some fs0
           \<and> fs1 = write_file (abspath (cwd fs) (snapshot_path rp ts)) raw fs0
           \<and> abspath (cwd fs) (snapshot_path rp ts) \<noteq> ap"
proof -
  let ?A = "abspath (cwd fs) (history_dir_of rp)"
  let ?K = "abspath (cwd fs) (snapshot_path rp ts)"
  have K: "?K = dir_prefix ?A @ ts @ ''.snap''" using wd ts by (rule snapshot_key)
  have lp: "length ?A \<le> length (dir_prefix ?A)" by (simp add: dir_prefix_def)
  have lk: "length ?A < length ?K" unfolding K using lp by simp
  have lpk: "length ?K \<le> length (dir_prefix ?K)" by (simp add: dir_prefix_def)
  from raw have ex: "path_exists fs ap" by (simp add: path_exists_def is_file_def)
  from cs ex obtain fs0 where mk: "makedirs ?A fs = Some fs0"
    by (auto simp: create_snapshot_alt split: option.splits)
  then have f0: "files fs0 = files fs" "cwd fs0 = cwd fs"
    and d0: "set (dirs fs0) = insert ?A (set (dirs fs))"
    by (auto simp: makedirs_def split: if_splits)
  have npA: "\<not> prefix (dir_prefix ?K) ?A"
    using lk lpk by (auto dest: prefix_length_le)
  have "\<not> is_dir fs0 ?K"
  proof
    assume "is_dir fs0 ?K"
    then consider "?K = ''/''" | "?K \<in> set (cwd fs0 # dirs fs0)"
      | "\<exists>q\<in>set (map fst (files fs0)) \<union> set (cwd fs0 # dirs fs0). prefix (dir_prefix ?K) q"
      by (auto simp: is_dir_def list_ex_iff)
    then show False
    proof cases
      case 1
      with nd show ?thesis by (simp add: is_dir_def)
    next
      case 2
      with d0 f0 lk have "?K \<in> set (cwd fs # dirs fs)" by auto
      with nd show ?thesis by (simp add: is_dir_def)
    next
      case 3
      then obtain q where q: "q \<in> set (map fst (files fs0)) \<union> set (cwd fs0 # dirs fs0)"
          "prefix (dir_prefix ?K) q" by blast
      with npA d0 f0 have "q \<in> set (map fst (files fs)) \<union> set (cwd fs # dirs fs)" by auto
      with q(2) nd show ?thesis by (auto simp: is_dir_def list_ex_iff)
    qed
  qed
  with cs ex mk f0 raw have "copy2 ap ?K fs0 \<noteq> None" "?K \<noteq> ap"
      "fs1 = write_file ?K raw fs0"
    by (auto simp: create_snapshot_alt copy2_def Let_def split: option.splits if_splits)
  with mk show ?thesis by blast
qed

section \<open>The matching blocks of the diff\<close>

text \<open>
  A longest match lies inside the window it was searched in, so the two windows that
  \<open>get_matching_blocks\<close> queues after a match are smaller than the window of the match,
  and the queue runs empty.
\<close>

lemma j2len_get_bound:
  assumes "\<forall>(j, v) \<in> set j2len. v + alo \<le> i \<and> v + blo \<le> j + 1" "alo \<le> i" "blo \<le> j"
  shows "j2len_get j2len j + alo \<le> i \<and> j2len_get j2len j + blo \<le> j"
proof (cases "j = 0 \<or> map_of j2len (j - 1) = None")
  case True
  then have "j2len_get j2len j = 0" by (auto simp: j2len_get_def)
  with assms show ?thesis by simp
next
  case False
  then obtain v where v: "map_of j2len (j - 1) = Some v" and j: "0 < j" by auto
  from v have "(j - 1, v) \<in> set j2len" by (rule map_of_SomeD)
  with assms(1) have "v + alo \<le> i \<and> v + blo \<le> j - 1 + 1" by blast
  moreover from v j have "j2len_get j2len j = v" by (simp add: j2len_get_def)
  ultimately show ?thesis using j by simp
qed

lemma row_loop_bounds:
  assumes "alo \<le> i"
    and "\<forall>(j, v) \<in> set j2len. v + alo \<le> i \<and> v + blo \<le> j + 1"
    and "alo \<le> bi \<and> blo \<le> bj \<and> (bs = 0 \<longrightarrow> bi = alo) \<and> (0 < bs \<longrightarrow> bi + bs \<le> i + 1 \<and> bj + bs \<le> bhi)"
    and "\<forall>(j, v) \<in> set new. v + alo \<le> i + 1 \<and> v + blo \<le> j + 1"
    and "row_loop i blo bhi j2len js ((bi, bj, bs), new) = ((bi', bj', bs'), new')"
  shows "alo \<le> bi' \<and> blo \<le> bj' \<and> (bs' = 0 \<longrightarrow> bi' = alo)
       \<and> (0 < bs' \<longrightarrow> bi' + bs' \<le> i + 1 \<and> bj' + bs' \<le> bhi)
       \<and> (\<forall>(j, v) \<in> set new'. v + alo \<le> i + 1 \<and> v + blo \<le> j + 1)"
  using assms(3-5)
proof (induction js arbitrary: bi bj bs new)
  case Nil
  then show ?case by simp
next
  case (Cons j js)
  show ?case
  proof (cases "j < blo")
    case True
    with Cons.prems(3) have "row_loop i blo bhi j2len js ((bi, bj, bs), new) = ((bi', bj', bs'), new')"
      by simp
    from Cons.IH [OF Cons.prems(1) Cons.prems(2) this] show ?thesis .
  next
    case lo: False
    show ?thesis
    proof (cases "bhi \<le> j")
      case True
      with lo Cons.prems show ?thesis by simp
    next
      case hi: False
      define k where "k = Suc (j2len_get j2len j)"
      from lo have "blo \<le> j" by simp
      from j2len_get_bound [OF assms(2) assms(1) this]
      have kb: "k + alo \<le> i + 1" "k + blo \<le> j + 1" by (simp_all add: k_def)
      define best where "best = (if bs < k then (i + 1 - k, j + 1 - k, k) else (bi, bj, bs))"
      obtain ci cj cs where best: "best = (ci, cj, cs)" by (cases best) auto
      have run: "row_loop i blo bhi j2len js ((ci, cj, cs), (j, k) # new) = ((bi', bj', bs'), new')"
        using Cons.prems(3) lo hi best unfolding best_def k_def by (simp add: Let_def)
      have b: "alo \<le> ci \<and> blo \<le> cj \<and> (cs = 0 \<longrightarrow> ci = alo) \<and> (0 < cs \<longrightarrow> ci + cs \<le> i + 1 \<and> cj + cs \<le> bhi)"
        using best Cons.prems(1) kb hi unfolding best_def k_def by (auto split: if_splits)
      have n: "\<forall>(j, v) \<in> set ((j, k) # new). v + alo \<le> i + 1 \<and> v + blo \<le> j + 1"
        using Cons.prems(2) kb by simp
      from Cons.IH [OF b n run] show ?thesis .
    qed
  qed
qed

lemma dp_loop_bounds:
  assumes "alo \<le> m" "m \<le> ahi"
    and "alo \<le> bi \<and> blo \<le> bj \<and> (bs = 0 \<longrightarrow> bi = alo) \<and> (0 < bs \<longrightarrow> bi + bs \<le> m \<and> bj + bs \<le> bhi)"
    and "\<forall>(j, v) \<in> set j2len. v + alo \<le> m \<and> v + blo \<le> j + 1"
    and "dp_loop a b blo bhi [m ..< ahi] ((bi, bj, bs), j2len) = (bi', bj', bs')"
  shows "alo \<le> bi' \<and> blo \<le> bj' \<and> (bs' = 0 \<longrightarrow> bi' = alo)
       \<and> (0 < bs' \<longrightarrow> bi' + bs' \<le> ahi \<and> bj' + bs' \<le> bhi)"
  using assms
proof (induction "ahi - m" arbitrary: m bi bj bs j2len)
  case 0
  then show ?case by simp
next
  case (Suc d)
  then have lt: "m < ahi" by simp
  obtain ci cj cs new where row:
    "row_loop m blo bhi j2len (b2j b (a ! m)) ((bi, bj, bs), []) = ((ci, cj, cs), new)"
    by (metis prod_cases3 surj_pair)
  have pre: "alo \<le> bi \<and> blo \<le> bj \<and> (bs = 0 \<longrightarrow> bi = alo)
      \<and> (0 < bs \<longrightarrow> bi + bs \<le> m + 1 \<and> bj + bs \<le> bhi)"
    using Suc.prems(3) by auto
  have r: "alo \<le> ci \<and> blo \<le> cj \<and> (cs = 0 \<longrightarrow> ci = alo)
       \<and> (0 < cs \<longrightarrow> ci + cs \<le> m + 1 \<and> cj + cs \<le> bhi)
       \<and> (\<forall>(j, v) \<in> set new. v + alo \<le> m + 1 \<and> v + blo \<le> j + 1)"
    by (rule row_loop_bounds [OF Suc.prems(1) Suc.prems(4) pre _ row]) simp
  have run: "dp_loop a b blo bhi [Suc m ..< ahi] ((ci, cj, cs), new) = (bi', bj', bs')"
    using Suc.prems(5) lt row by (simp add: upt_conv_Cons)
  have "d = ahi - Suc m" using Suc.hyps(2) by simp
  from Suc.hyps(1) [OF this _ _ _ _ run] r Suc.prems(1) lt show ?case by simp
qed

lemma extend_left_bounds:
  assumes "extend_left a b alo blo (bi, bj, bs) = (bi', bj', bs')" "alo \<le> bi" "blo \<le> bj"
  shows "alo \<le> bi' \<and> blo \<le> bj' \<and> bi' + bs' = bi + bs \<and> bj' + bs' = bj + bs \<and> bs \<le> bs'"
  using assms
proof (induction a b alo blo "(bi, bj, bs)" arbitrary: bi bj bs rule: extend_left.induct)
  case (1 a b alo blo besti bestj bestsize)
  show ?case
  proof (cases "besti > alo \<and> bestj > blo \<and> a ! (besti - 1) = b ! (bestj - 1)")
    case True
    with "1.prems" have "extend_left a b alo blo (besti - 1, bestj - 1, bestsize + 1) = (bi', bj', bs')"
      by simp
    moreover have "alo \<le> besti - 1" "blo \<le> bestj - 1" using True by auto
    ultimately have "alo \<le> bi' \<and> blo \<le> bj' \<and> bi' + bs' = besti - 1 + (bestsize + 1)
        \<and> bj' + bs' = bestj - 1 + (bestsize + 1) \<and> bestsize + 1 \<le> bs'"
      by (rule "1.hyps" [OF True])
    with True show ?thesis by simp
  next
    case False
    with "1.prems" show ?thesis by auto
  qed
qed

lemma extend_right_bounds:
  assumes "extend_right a b ahi bhi (bi, bj, bs) = (bi', bj', bs')"
    "0 < bs \<longrightarrow> bi + bs \<le> ahi \<and> bj + bs \<le> bhi"
  shows "bi' = bi \<and> bj' = bj \<and> bs \<le> bs' \<and> (0 < bs' \<longrightarrow> bi + bs' \<le> ahi \<and> bj + bs' \<le> bhi)"
  using assms
proof (induction a b ahi bhi "(bi, bj, bs)" arbitrary: bi bj bs rule: extend_right.induct)
  case (1 a b ahi bhi besti bestj bestsize)
  show ?case
  proof (cases "besti + bestsize < ahi \<and> bestj + bestsize < bhi
         \<and> a ! (besti + bestsize) = b ! (bestj + bestsize)")
    case True
    with "1.prems" have "extend_right a b ahi bhi (besti, bestj, bestsize + 1) = (bi', bj', bs')"
      by simp
    from "1.hyps" [OF True this] True show ?thesis by simp
  next
    case False
    with "1.prems" show ?thesis by auto
  qed
qed

lemma find_longest_match_bounds:
  assumes "find_longest_match a b alo ahi blo bhi = (i, j, k)"
  shows "alo \<le> i \<and> blo \<le> j \<and> (0 < k \<longrightarrow> i + k \<le> ahi \<and> j + k \<le> bhi)"
proof -
  obtain bi bj bs where dp: "dp_loop a b blo bhi [alo ..< ahi] ((alo, blo, 0), []) = (bi, bj, bs)"
    by (metis prod_cases3)
  have d: "alo \<le> bi \<and> blo \<le> bj \<and> (bs = 0 \<longrightarrow> bi = alo)
      \<and> (0 < bs \<longrightarrow> bi + bs \<le> ahi \<and> bj + bs \<le> bhi)"
  proof (cases "alo \<le> ahi")
    case True
    show ?thesis by (rule dp_loop_bounds [OF _ True _ _ dp]) simp_all
  next
    case False
    with dp show ?thesis by simp
  qed
  obtain ci cj cs where el: "extend_left a b alo blo (bi, bj, bs) = (ci, cj, cs)"
    by (metis prod_cases3)
  from extend_left_bounds [OF el] d
  have e: "alo \<le> ci \<and> blo \<le> cj \<and> ci + cs = bi + bs \<and> cj + cs = bj + bs \<and> bs \<le> cs" by simp
  have er: "extend_right a b ahi bhi (ci, cj, cs) = (i, j, k)"
    using assms dp el by (simp add: find_longest_match_def)
  have pre: "0 < cs \<longrightarrow> ci + cs \<le> ahi \<and> cj + cs \<le> bhi"
  proof (cases "0 < bs")
    case True
    with d e show ?thesis by simp
  next
    case False
    with d have "bs = 0" "bi = alo" by simp_all
    with el have "cs = 0" by simp
    then show ?thesis by simp
  qed
  from extend_right_bounds [OF er pre] e show ?thesis by simp
qed

termination blocks
proof (relation "measure (\<lambda>(a, b, alo, ahi, blo, bhi). (ahi - alo) + (bhi - blo))", goal_cases)
  case 1
  show ?case by simp
next
  case (2 a b alo ahi blo bhi x i j k)
  obtain i' j' k' where x: "find_longest_match a b alo ahi blo bhi = (i', j', k')"
    by (metis prod_cases3)
  from find_longest_match_bounds [OF x] 2 x show ?case by auto
next
  case (3 a b alo ahi blo bhi x i j k)
  obtain i' j' k' where x: "find_longest_match a b alo ahi blo bhi = (i', j', k')"
    by (metis prod_cases3)
  from find_longest_match_bounds [OF x] 3 x show ?case by auto
qed

declare blocks.simps [simp del]

section \<open>The diff of a sequence with itself\<close>

text \<open>
  In the table of the longest match of a sequence with itself no entry is longer than the
  entry on the diagonal of its row or of its column, so the best match lies on the
  diagonal and the two loops that extend it make it the whole sequence.
\<close>

lemma nonpopular_run_0: "nonpopular_run a 0 = 0"
  by (simp add: nonpopular_run_def)

lemma nonpopular_run_Suc:
  "i < length a \<Longrightarrow>
   nonpopular_run a (Suc i) = (if popular a (a ! i) then 0 else Suc (nonpopular_run a i))"
  by (simp add: nonpopular_run_def take_Suc_conv_app_nth)

lemma j2len_get_Cons:
  "j2len_get ((j, k) # new) (Suc i) = (if i = j then k else j2len_get new (Suc i))"
  by (simp add: j2len_get_def)

lemma j2len_get_run:
  assumes "\<forall>(j, v) \<in> set j2len. v \<le> nonpopular_run a (Suc j) \<and> v \<le> r"
  shows "j2len_get j2len j \<le> nonpopular_run a j \<and> j2len_get j2len j \<le> r"
proof (cases "j = 0 \<or> map_of j2len (j - 1) = None")
  case True
  then have "j2len_get j2len j = 0" by (auto simp: j2len_get_def)
  then show ?thesis by simp
next
  case False
  then obtain v where v: "map_of j2len (j - 1) = Some v" and j: "0 < j" by auto
  from v have "(j - 1, v) \<in> set j2len" by (rule map_of_SomeD)
  with assms have "v \<le> nonpopular_run a (Suc (j - 1)) \<and> v \<le> r" by blast
  moreover from v j have "j2len_get j2len j = v" by (simp add: j2len_get_def)
  ultimately show ?thesis using j by simp
qed

lemma row_loop_self:
  assumes i: "i < length a"
    and prev1: "\<forall>(j, v) \<in> set j2len. v \<le> nonpopular_run a (Suc j) \<and> v \<le> nonpopular_run a i"
    and prev2: "j2len_get j2len i = nonpopular_run a i"
    and sorted: "sorted_wrt (<) js"
    and js: "\<forall>j \<in> set js. j < length a \<and> a ! j = a ! i \<and> \<not> popular a (a ! i)"
    and diag: "bi = bj"
    and best: "\<forall>j' < i. nonpopular_run a (Suc j') \<le> bs"
    and new: "\<forall>(j, v) \<in> set new. v \<le> nonpopular_run a (Suc j) \<and> v \<le> nonpopular_run a (Suc i)"
    and here: "i \<in> set js \<or> (nonpopular_run a (Suc i) \<le> bs
                 \<and> j2len_get new (Suc i) = nonpopular_run a (Suc i))"
    and run: "row_loop i 0 (length a) j2len js ((bi, bj, bs), new) = ((bi', bj', bs'), new')"
  shows "bi' = bj' \<and> (\<forall>j' < Suc i. nonpopular_run a (Suc j') \<le> bs')
       \<and> (\<forall>(j, v) \<in> set new'. v \<le> nonpopular_run a (Suc j) \<and> v \<le> nonpopular_run a (Suc i))
       \<and> j2len_get new' (Suc i) = nonpopular_run a (Suc i)"
  using sorted js diag best new here run
proof (induction js arbitrary: bi bj bs new)
  case Nil
  then show ?case by (auto simp: less_Suc_eq)
next
  case (Cons j js)
  from Cons.prems(2) have j: "j < length a" "a ! j = a ! i" "\<not> popular a (a ! i)" by simp_all
  define k where "k = Suc (j2len_get j2len j)"
  from j2len_get_run [OF prev1, of j]
  have g: "j2len_get j2len j \<le> nonpopular_run a j" "j2len_get j2len j \<le> nonpopular_run a i"
    by simp_all
  have rj: "nonpopular_run a (Suc j) = Suc (nonpopular_run a j)"
    using j by (simp add: nonpopular_run_Suc)
  have ri: "nonpopular_run a (Suc i) = Suc (nonpopular_run a i)"
    using j i by (simp add: nonpopular_run_Suc)
  have kb: "k \<le> nonpopular_run a (Suc j)" "k \<le> nonpopular_run a (Suc i)"
    using g rj ri by (simp_all add: k_def)
  define nb where "nb = (if bs < k then (i + 1 - k, j + 1 - k, k) else (bi, bj, bs))"
  obtain ci cj cs where nb: "nb = (ci, cj, cs)" by (cases nb) auto
  have run: "row_loop i 0 (length a) j2len js ((ci, cj, cs), (j, k) # new) = ((bi', bj', bs'), new')"
    using Cons.prems(7) j(1) nb unfolding nb_def k_def by (simp add: Let_def)
  have s: "sorted_wrt (<) js" and gt: "\<forall>x \<in> set js. j < x" using Cons.prems(1) by simp_all
  have js': "\<forall>j \<in> set js. j < length a \<and> a ! j = a ! i \<and> \<not> popular a (a ! i)"
    using Cons.prems(2) by simp
  have n': "\<forall>(j, v) \<in> set ((j, k) # new). v \<le> nonpopular_run a (Suc j) \<and> v \<le> nonpopular_run a (Suc i)"
    using Cons.prems(5) kb by simp
  have st: "ci = cj \<and> (\<forall>j' < i. nonpopular_run a (Suc j') \<le> cs)
      \<and> (i \<in> set js \<or> (nonpopular_run a (Suc i) \<le> cs
                 \<and> j2len_get ((j, k) # new) (Suc i) = nonpopular_run a (Suc i)))"
  proof (cases "j = i")
    case True
    have "k = nonpopular_run a (Suc i)" using prev2 ri True by (simp add: k_def)
    then show ?thesis
      using nb Cons.prems(3,4) True unfolding nb_def
      by (auto simp: j2len_get_Cons split: if_splits intro: le_trans less_imp_le)
  next
    case False
    have nok: "\<not> bs < k"
    proof (cases "j < i")
      case True
      with Cons.prems(4) kb(1) show ?thesis by (meson le_trans not_less)
    next
      case F: False
      with False have "i < j" by simp
      with gt have "i \<notin> set (j # js)" by auto
      with Cons.prems(6) have "nonpopular_run a (Suc i) \<le> bs" by blast
      with kb(2) show ?thesis by simp
    qed
    then have "nb = (bi, bj, bs)" by (simp add: nb_def)
    with nb have "ci = bi" "cj = bj" "cs = bs" by simp_all
    with Cons.prems(3,4,6) False show ?thesis by (auto simp: j2len_get_Cons)
  qed
  from Cons.IH [OF s js' _ _ n' _ run] st show ?case by blast
qed


lemma b2j_sorted: "sorted_wrt (<) (b2j b x)"
  by (simp add: b2j_def sorted_wrt_filter)

lemma b2j_member:
  "j \<in> set (b2j b x) \<longleftrightarrow> j < length b \<and> b ! j = x \<and> \<not> popular b x"
  by (auto simp: b2j_def)

lemma dp_loop_self:
  assumes "m \<le> length a"
    and "\<forall>(j, v) \<in> set j2len. v \<le> nonpopular_run a (Suc j) \<and> v \<le> nonpopular_run a m"
    and "j2len_get j2len m = nonpopular_run a m"
    and "bi = bj"
    and "\<forall>j' < m. nonpopular_run a (Suc j') \<le> bs"
    and "dp_loop a a 0 (length a) [m ..< length a] ((bi, bj, bs), j2len) = (bi', bj', bs')"
  shows "bi' = bj'"
  using assms
proof (induction "length a - m" arbitrary: m bi bj bs j2len)
  case 0
  then show ?case by simp
next
  case (Suc d)
  then have lt: "m < length a" by simp
  obtain ci cj cs new where row:
    "row_loop m 0 (length a) j2len (b2j a (a ! m)) ((bi, bj, bs), []) = ((ci, cj, cs), new)"
    by (metis prod_cases3 surj_pair)
  have js: "\<forall>j \<in> set (b2j a (a ! m)). j < length a \<and> a ! j = a ! m \<and> \<not> popular a (a ! m)"
    by (simp add: b2j_member)
  have here: "m \<in> set (b2j a (a ! m)) \<or> (nonpopular_run a (Suc m) \<le> bs
                 \<and> j2len_get [] (Suc m) = nonpopular_run a (Suc m))"
    using lt by (auto simp: b2j_member nonpopular_run_Suc j2len_get_def)
  have r: "ci = cj \<and> (\<forall>j' < Suc m. nonpopular_run a (Suc j') \<le> cs)
       \<and> (\<forall>(j, v) \<in> set new. v \<le> nonpopular_run a (Suc j) \<and> v \<le> nonpopular_run a (Suc m))
       \<and> j2len_get new (Suc m) = nonpopular_run a (Suc m)"
    by (rule row_loop_self [OF lt Suc.prems(2,3) b2j_sorted js Suc.prems(4,5) _ here row]) simp
  have run: "dp_loop a a 0 (length a) [Suc m ..< length a] ((ci, cj, cs), new) = (bi', bj', bs')"
    using Suc.prems(6) lt row by (simp add: upt_conv_Cons)
  have "d = length a - Suc m" using Suc.hyps(2) by simp
  from Suc.hyps(1) [OF this _ _ _ _ _ run] r lt show ?case by simp
qed

lemma extend_left_self: "extend_left a a 0 0 (d, d, s) = (0, 0, s + d)"
proof (induction d arbitrary: s)
  case 0
  then show ?case by simp
next
  case (Suc d)
  have "extend_left a a 0 0 (Suc d, Suc d, s) = extend_left a a 0 0 (d, d, Suc s)"
    by (subst extend_left.simps) simp
  with Suc [of "Suc s"] show ?case by simp
qed

lemma extend_right_self:
  "s \<le> n \<Longrightarrow> extend_right a a n n (0, 0, s) = (0, 0, n)"
proof (induction "n - s" arbitrary: s)
  case 0
  then show ?case by simp
next
  case (Suc d)
  then have "s < n" by simp
  then have "extend_right a a n n (0, 0, s) = extend_right a a n n (0, 0, Suc s)"
    by (subst extend_right.simps) simp
  moreover have "extend_right a a n n (0, 0, Suc s) = (0, 0, n)"
    by (rule Suc.hyps(1)) (use Suc.hyps(2) \<open>s < n\<close> in simp_all)
  ultimately show ?case by simp
qed

lemma find_longest_match_self:
  "find_longest_match a a 0 (length a) 0 (length a) = (0, 0, length a)"
proof -
  obtain bi bj bs where
    dp: "dp_loop a a 0 (length a) [0 ..< length a] ((0, 0, 0), []) = (bi, bj, bs)"
    by (metis prod_cases3)
  have diag: "bi = bj"
    by (rule dp_loop_self [OF _ _ _ _ _ dp]) (simp_all add: nonpopular_run_0 j2len_get_def)
  have "0 \<le> bi \<and> 0 \<le> bj \<and> (bs = 0 \<longrightarrow> bi = 0)
      \<and> (0 < bs \<longrightarrow> bi + bs \<le> length a \<and> bj + bs \<le> length a)"
    by (rule dp_loop_bounds [OF _ _ _ _ dp]) simp_all
  then have le: "bs + bi \<le> length a" by (cases "bs = 0") simp_all
  show ?thesis
    unfolding find_longest_match_def dp diag [symmetric] extend_left_self
    using le by (rule extend_right_self)
qed

lemma blocks_self:
  "blocks a a 0 (length a) 0 (length a) = (if a = [] then [] else [(0, 0, length a)])"
  by (subst blocks.simps) (simp add: find_longest_match_self Let_def)

lemma get_opcodes_self:
  "get_opcodes a a = (if a = [] then [] else [(Equal, 0, length a, 0, length a)])"
  by (simp add: get_opcodes_def get_matching_blocks_def blocks_self)

lemma get_grouped_opcodes_self: "get_grouped_opcodes 3 a a = []"
  by (simp add: get_grouped_opcodes_def get_opcodes_self fix_first_def fix_last_def Let_def)

lemma unified_diff_self: "unified_diff a a fromfile tofile = []"
  by (simp add: unified_diff_def get_grouped_opcodes_self)

section \<open>An empty diff\<close>

text \<open>
  Every matching block is a pair of equal segments of the two sequences. A diff with no
  group has at most one block, which then covers both sequences.
\<close>

lemma j2len_get_sound:
  assumes "\<forall>(j, v) \<in> set j2len.
             \<exists>p q. p + v = i \<and> q + v = j + 1 \<and> (\<forall>t < v. a ! (p + t) = b ! (q + t))"
  shows "\<exists>p q. p + j2len_get j2len j = i \<and> q + j2len_get j2len j = j
           \<and> (\<forall>t < j2len_get j2len j. a ! (p + t) = b ! (q + t))"
proof (cases "j = 0 \<or> map_of j2len (j - 1) = None")
  case True
  then have "j2len_get j2len j = 0" by (auto simp: j2len_get_def)
  then show ?thesis by simp
next
  case False
  then obtain v where v: "map_of j2len (j - 1) = Some v" and j: "0 < j" by auto
  from v have "(j - 1, v) \<in> set j2len" by (rule map_of_SomeD)
  with assms obtain p q where
    "p + v = i \<and> q + v = j - 1 + 1 \<and> (\<forall>t < v. a ! (p + t) = b ! (q + t))" by blast
  moreover from v j have "j2len_get j2len j = v" by (simp add: j2len_get_def)
  ultimately show ?thesis using j by auto
qed

lemma row_loop_sound:
  assumes prev: "\<forall>(j, v) \<in> set j2len.
             \<exists>p q. p + v = i \<and> q + v = j + 1 \<and> (\<forall>t < v. a ! (p + t) = b ! (q + t))"
    and js: "\<forall>j \<in> set js. b ! j = a ! i"
    and best: "\<forall>t < bs. a ! (bi + t) = b ! (bj + t)"
    and new: "\<forall>(j, v) \<in> set new.
             \<exists>p q. p + v = Suc i \<and> q + v = j + 1 \<and> (\<forall>t < v. a ! (p + t) = b ! (q + t))"
    and run: "row_loop i blo bhi j2len js ((bi, bj, bs), new) = ((bi', bj', bs'), new')"
  shows "(\<forall>t < bs'. a ! (bi' + t) = b ! (bj' + t))
       \<and> (\<forall>(j, v) \<in> set new'.
             \<exists>p q. p + v = Suc i \<and> q + v = j + 1 \<and> (\<forall>t < v. a ! (p + t) = b ! (q + t)))"
  using js best new run
proof (induction js arbitrary: bi bj bs new)
  case Nil
  then show ?case by simp
next
  case (Cons j js)
  have js': "\<forall>j \<in> set js. b ! j = a ! i" using Cons.prems(1) by simp
  show ?case
  proof (cases "j < blo")
    case True
    with Cons.prems(4) have "row_loop i blo bhi j2len js ((bi, bj, bs), new) = ((bi', bj', bs'), new')"
      by simp
    from Cons.IH [OF js' Cons.prems(2,3) this] show ?thesis .
  next
    case lo: False
    show ?thesis
    proof (cases "bhi \<le> j")
      case True
      with lo Cons.prems show ?thesis by simp
    next
      case hi: False
      define g where "g = j2len_get j2len j"
      define k where "k = Suc g"
      from j2len_get_sound [OF prev, of j] obtain p q where
        pq: "p + g = i" "q + g = j" and ge: "\<forall>t < g. a ! (p + t) = b ! (q + t)"
        unfolding g_def by blast
      have eq: "b ! j = a ! i" using Cons.prems(1) by simp
      have ke: "a ! (p + t) = b ! (q + t)" if "t < k" for t
      proof (cases "t < g")
        case True
        with ge show ?thesis by simp
      next
        case False
        with that have "t = g" by (simp add: k_def)
        with pq eq show ?thesis by simp
      qed
      have pk: "p + k = Suc i" "q + k = j + 1" using pq by (simp_all add: k_def)
      then have st: "i + 1 - k = p" "j + 1 - k = q" by simp_all
      define nb where "nb = (if bs < k then (i + 1 - k, j + 1 - k, k) else (bi, bj, bs))"
      obtain ci cj cs where nb: "nb = (ci, cj, cs)" by (cases nb) auto
      have run: "row_loop i blo bhi j2len js ((ci, cj, cs), (j, k) # new) = ((bi', bj', bs'), new')"
        using Cons.prems(4) lo hi nb unfolding nb_def k_def g_def by (simp add: Let_def)
      have b: "\<forall>t < cs. a ! (ci + t) = b ! (cj + t)"
      proof (cases "bs < k")
        case True
        with nb st have "ci = p" "cj = q" "cs = k" by (auto simp: nb_def)
        with ke show ?thesis by simp
      next
        case False
        with nb have "ci = bi" "cj = bj" "cs = bs" by (simp_all add: nb_def)
        with Cons.prems(2) show ?thesis by simp
      qed
      have "\<exists>p q. p + k = Suc i \<and> q + k = j + 1 \<and> (\<forall>t < k. a ! (p + t) = b ! (q + t))"
        using pk ke by blast
      then have n: "\<forall>(j, v) \<in> set ((j, k) # new).
             \<exists>p q. p + v = Suc i \<and> q + v = j + 1 \<and> (\<forall>t < v. a ! (p + t) = b ! (q + t))"
        using Cons.prems(3) by simp
      from Cons.IH [OF js' b n run] show ?thesis .
    qed
  qed
qed

lemma dp_loop_sound:
  assumes "\<forall>(j, v) \<in> set j2len.
             \<exists>p q. p + v = m \<and> q + v = j + 1 \<and> (\<forall>t < v. a ! (p + t) = b ! (q + t))"
    and "\<forall>t < bs. a ! (bi + t) = b ! (bj + t)"
    and "dp_loop a b blo bhi [m ..< ahi] ((bi, bj, bs), j2len) = (bi', bj', bs')"
  shows "\<forall>t < bs'. a ! (bi' + t) = b ! (bj' + t)"
  using assms
proof (induction "ahi - m" arbitrary: m bi bj bs j2len)
  case 0
  then show ?case by simp
next
  case (Suc d)
  then have lt: "m < ahi" by simp
  obtain ci cj cs new where row:
    "row_loop m blo bhi j2len (b2j b (a ! m)) ((bi, bj, bs), []) = ((ci, cj, cs), new)"
    by (metis prod_cases3 surj_pair)
  have js: "\<forall>j \<in> set (b2j b (a ! m)). b ! j = a ! m" by (simp add: b2j_member)
  have r: "(\<forall>t < cs. a ! (ci + t) = b ! (cj + t))
       \<and> (\<forall>(j, v) \<in> set new.
             \<exists>p q. p + v = Suc m \<and> q + v = j + 1 \<and> (\<forall>t < v. a ! (p + t) = b ! (q + t)))"
    by (rule row_loop_sound [OF Suc.prems(1) js Suc.prems(2) _ row]) simp
  have run: "dp_loop a b blo bhi [Suc m ..< ahi] ((ci, cj, cs), new) = (bi', bj', bs')"
    using Suc.prems(3) lt row by (simp add: upt_conv_Cons)
  have "d = ahi - Suc m" using Suc.hyps(2) by simp
  from Suc.hyps(1) [OF this _ _ run] r show ?case by blast
qed

lemma extend_left_sound:
  assumes "extend_left a b alo blo (bi, bj, bs) = (bi', bj', bs')"
    "\<forall>t < bs. a ! (bi + t) = b ! (bj + t)"
  shows "\<forall>t < bs'. a ! (bi' + t) = b ! (bj' + t)"
  using assms
proof (induction a b alo blo "(bi, bj, bs)" arbitrary: bi bj bs rule: extend_left.induct)
  case (1 a b alo blo besti bestj bestsize)
  show ?case
  proof (cases "besti > alo \<and> bestj > blo \<and> a ! (besti - 1) = b ! (bestj - 1)")
    case True
    with "1.prems" have run: "extend_left a b alo blo (besti - 1, bestj - 1, bestsize + 1) = (bi', bj', bs')"
      by simp
    have "a ! (besti - 1 + t) = b ! (bestj - 1 + t)" if "t < bestsize + 1" for t
    proof (cases t)
      case 0
      with True show ?thesis by simp
    next
      case (Suc u)
      with that have "u < bestsize" by simp
      with "1.prems"(2) have "a ! (besti + u) = b ! (bestj + u)" by simp
      with True Suc show ?thesis by simp
    qed
    then have "\<forall>t < bestsize + 1. a ! (besti - 1 + t) = b ! (bestj - 1 + t)" by blast
    with run show ?thesis by (rule "1.hyps" [OF True])
  next
    case False
    with "1.prems" show ?thesis by auto
  qed
qed

lemma extend_right_sound:
  assumes "extend_right a b ahi bhi (bi, bj, bs) = (bi', bj', bs')"
    "\<forall>t < bs. a ! (bi + t) = b ! (bj + t)"
  shows "\<forall>t < bs'. a ! (bi' + t) = b ! (bj' + t)"
  using assms
proof (induction a b ahi bhi "(bi, bj, bs)" arbitrary: bi bj bs rule: extend_right.induct)
  case (1 a b ahi bhi besti bestj bestsize)
  show ?case
  proof (cases "besti + bestsize < ahi \<and> bestj + bestsize < bhi
         \<and> a ! (besti + bestsize) = b ! (bestj + bestsize)")
    case True
    with "1.prems" have run: "extend_right a b ahi bhi (besti, bestj, bestsize + 1) = (bi', bj', bs')"
      by simp
    have "\<forall>t < bestsize + 1. a ! (besti + t) = b ! (bestj + t)"
      using "1.prems"(2) True by (auto simp: less_Suc_eq)
    with run show ?thesis by (rule "1.hyps" [OF True])
  next
    case False
    with "1.prems" show ?thesis by auto
  qed
qed

lemma find_longest_match_sound:
  assumes "find_longest_match a b alo ahi blo bhi = (i, j, k)"
  shows "\<forall>t < k. a ! (i + t) = b ! (j + t)"
proof -
  obtain bi bj bs where dp: "dp_loop a b blo bhi [alo ..< ahi] ((alo, blo, 0), []) = (bi, bj, bs)"
    by (metis prod_cases3)
  have d: "\<forall>t < bs. a ! (bi + t) = b ! (bj + t)"
    by (rule dp_loop_sound [OF _ _ dp]) simp_all
  obtain ci cj cs where el: "extend_left a b alo blo (bi, bj, bs) = (ci, cj, cs)"
    by (metis prod_cases3)
  have er: "extend_right a b ahi bhi (ci, cj, cs) = (i, j, k)"
    using assms dp el by (simp add: find_longest_match_def)
  from extend_right_sound [OF er extend_left_sound [OF el d]] show ?thesis .
qed

lemma blocks_sound:
  "\<forall>(i, j, k) \<in> set (blocks a b alo ahi blo bhi).
     0 < k \<and> i + k \<le> ahi \<and> j + k \<le> bhi \<and> (\<forall>t < k. a ! (i + t) = b ! (j + t))"
proof (induction a b alo ahi blo bhi rule: blocks.induct)
  case (1 a b alo ahi blo bhi)
  obtain i j k where x: "find_longest_match a b alo ahi blo bhi = (i, j, k)"
    by (metis prod_cases3)
  note bd = find_longest_match_bounds [OF x] and sd = find_longest_match_sound [OF x]
  show ?case
  proof (cases "k = 0")
    case True
    with x show ?thesis by (subst blocks.simps) (simp add: Let_def)
  next
    case False
    have r: "\<forall>(i', j', k') \<in> set (blocks a b (i + k) ahi (j + k) bhi).
               0 < k' \<and> i' + k' \<le> ahi \<and> j' + k' \<le> bhi \<and> (\<forall>t < k'. a ! (i' + t) = b ! (j' + t))"
      if "i + k < ahi \<and> j + k < bhi"
      using "1.IH"(1) [OF x [symmetric] _ _ _ _ that [unfolded fst_conv snd_conv]] False that by simp
    have l: "\<forall>(i', j', k') \<in> set (blocks a b alo i blo j).
               0 < k' \<and> i' + k' \<le> i \<and> j' + k' \<le> j \<and> (\<forall>t < k'. a ! (i' + t) = b ! (j' + t))"
      if "alo < i \<and> blo < j"
      using "1.IH"(2) [OF x [symmetric] _ _ _ _ that] False that by simp
    have "blocks a b alo ahi blo bhi
          = (i, j, k) # (if i + k < ahi \<and> j + k < bhi then blocks a b (i + k) ahi (j + k) bhi else [])
              @ (if alo < i \<and> blo < j then blocks a b alo i blo j else [])"
      using x False by (subst blocks.simps) (simp add: Let_def)
    then show ?thesis using r l bd sd False by (fastforce split: if_splits)
  qed
qed


lemma collapse_sound:
  assumes "i1 + k1 \<le> la \<and> j1 + k1 \<le> lb \<and> (\<forall>t < k1. a ! (i1 + t) = b ! (j1 + t))"
    and "\<forall>(i, j, k) \<in> set xs. i + k \<le> la \<and> j + k \<le> lb \<and> (\<forall>t < k. a ! (i + t) = b ! (j + t))"
  shows "\<forall>(i, j, k) \<in> set (collapse (i1, j1, k1) xs).
           k \<noteq> 0 \<and> i + k \<le> la \<and> j + k \<le> lb \<and> (\<forall>t < k. a ! (i + t) = b ! (j + t))"
  using assms
proof (induction xs arbitrary: i1 j1 k1)
  case Nil
  then show ?case by simp
next
  case (Cons x xs)
  obtain i2 j2 k2 where x: "x = (i2, j2, k2)" by (cases x) auto
  from Cons.prems(2) x have x2: "i2 + k2 \<le> la \<and> j2 + k2 \<le> lb
      \<and> (\<forall>t < k2. a ! (i2 + t) = b ! (j2 + t))" by simp
  from Cons.prems(2) have rest:
    "\<forall>(i, j, k) \<in> set xs. i + k \<le> la \<and> j + k \<le> lb \<and> (\<forall>t < k. a ! (i + t) = b ! (j + t))"
    by simp
  show ?case
  proof (cases "i1 + k1 = i2 \<and> j1 + k1 = j2")
    case True
    have "a ! (i1 + t) = b ! (j1 + t)" if "t < k1 + k2" for t
    proof (cases "t < k1")
      case True
      with Cons.prems(1) show ?thesis by simp
    next
      case False
      then obtain u where u: "t = k1 + u" using le_Suc_ex not_less by blast
      with that have "u < k2" by simp
      with x2 have "a ! (i2 + u) = b ! (j2 + u)" by simp
      with True u show ?thesis by (metis add.assoc)
    qed
    with x2 True have "i1 + (k1 + k2) \<le> la \<and> j1 + (k1 + k2) \<le> lb
        \<and> (\<forall>t < k1 + k2. a ! (i1 + t) = b ! (j1 + t))"
      by (auto simp: add.assoc)
    from Cons.IH [OF this rest] True x show ?thesis by simp
  next
    case False
    from Cons.IH [OF x2 rest] False x Cons.prems(1) show ?thesis by auto
  qed
qed

lemma get_matching_blocks_sound:
  "\<exists>mb. get_matching_blocks a b = mb @ [(length a, length b, 0)]
      \<and> (\<forall>(i, j, k) \<in> set mb. k \<noteq> 0 \<and> i + k \<le> length a \<and> j + k \<le> length b
            \<and> (\<forall>t < k. a ! (i + t) = b ! (j + t)))"
proof -
  have "\<forall>(i, j, k) \<in> set (sort (blocks a b 0 (length a) 0 (length b))).
          i + k \<le> length a \<and> j + k \<le> length b \<and> (\<forall>t < k. a ! (i + t) = b ! (j + t))"
    using blocks_sound [of a b 0 "length a" 0 "length b"] by auto
  then have "\<forall>(i, j, k) \<in> set (collapse (0, 0, 0) (sort (blocks a b 0 (length a) 0 (length b)))).
          k \<noteq> 0 \<and> i + k \<le> length a \<and> j + k \<le> length b \<and> (\<forall>t < k. a ! (i + t) = b ! (j + t))"
    by (intro collapse_sound) simp_all
  then show ?thesis unfolding get_matching_blocks_def by blast
qed

lemma group_loop_Nil:
  "group_loop n codes grp = [] \<Longrightarrow> grp @ codes = [] \<or> (\<exists>x. grp @ codes = [x] \<and> fst x = Equal)"
proof (induction codes arbitrary: grp)
  case Nil
  then show ?case by (cases grp) (auto split: if_splits)
next
  case (Cons c codes)
  obtain tg i1 i2 j1 j2 where c: "c = (tg, i1, i2, j1, j2)" by (cases c) auto
  from Cons.prems c have "group_loop n codes (grp @ [c]) = []" by (auto split: if_splits)
  from Cons.IH [OF this] show ?case by simp
qed

lemma map_fst_fix_first: "map fst (fix_first n codes) = map fst codes"
  by (auto simp: fix_first_def split: list.splits tag.splits)

lemma map_fst_fix_last: "map fst (fix_last n codes) = map fst codes"
proof (cases "codes = []")
  case True
  then show ?thesis by (simp add: fix_last_def)
next
  case False
  then have "map fst codes = map fst (butlast codes) @ [fst (last codes)]"
    by (metis append_butlast_last_id list.simps(8,9) map_append)
  with False show ?thesis by (auto simp: fix_last_def split: prod.splits tag.splits)
qed

lemma opcodes_equal:
  assumes mb: "\<forall>(i, j, k) \<in> set mb. k \<noteq> 0 \<and> i + k \<le> length a \<and> j + k \<le> length b
                 \<and> (\<forall>t < k. a ! (i + t) = b ! (j + t))"
    and tags: "map fst (opcodes_loop 0 0 (mb @ [(length a, length b, 0)])) = []
             \<or> map fst (opcodes_loop 0 0 (mb @ [(length a, length b, 0)])) = [Equal]"
  shows "a = b"
proof (cases mb)
  case Nil
  with tags show ?thesis by (auto split: if_splits)
next
  case (Cons x rest)
  obtain i j k where x: "x = (i, j, k)" by (cases x) auto
  from mb Cons x have k: "k \<noteq> 0" "i + k \<le> length a" "j + k \<le> length b"
    and eq: "\<forall>t < k. a ! (i + t) = b ! (j + t)" by auto
  show ?thesis
  proof (cases rest)
    case Nil
    from tags Cons x Nil k(1) have "i = 0 \<and> j = 0 \<and> \<not> k < length a \<and> \<not> k < length b"
      by (auto split: if_splits)
    with k eq have "length a = length b" "\<forall>t < length a. a ! t = b ! t" by auto
    then show ?thesis by (simp add: nth_equalityI)
  next
    case (Cons y rest')
    obtain i' j' k' where y: "y = (i', j', k')" by (cases y) auto
    from mb \<open>mb = x # rest\<close> Cons y have "k' \<noteq> 0" by auto
    with tags \<open>mb = x # rest\<close> Cons x y k(1) show ?thesis by (auto split: if_splits)
  qed
qed

lemma get_grouped_opcodes_Nil:
  assumes "get_grouped_opcodes n a b = []"
  shows "a = b"
proof -
  define codes where "codes = get_opcodes a b"
  define codes' where "codes' = (if codes = [] then [(Equal, 0, 1, 0, 1)] else codes)"
  from assms have "group_loop n (fix_last n (fix_first n codes')) [] = []"
    unfolding get_grouped_opcodes_def codes_def codes'_def Let_def .
  from group_loop_Nil [OF this]
  have "map fst (fix_last n (fix_first n codes')) = []
      \<or> map fst (fix_last n (fix_first n codes')) = [Equal]" by auto
  then have "map fst codes' = [] \<or> map fst codes' = [Equal]"
    by (simp only: map_fst_fix_last map_fst_fix_first)
  then have t: "map fst codes = [] \<or> map fst codes = [Equal]"
    by (auto simp: codes'_def split: if_splits)
  from get_matching_blocks_sound [of a b] obtain mb where
    mb: "get_matching_blocks a b = mb @ [(length a, length b, 0)]"
    "\<forall>(i, j, k) \<in> set mb. k \<noteq> 0 \<and> i + k \<le> length a \<and> j + k \<le> length b
            \<and> (\<forall>t < k. a ! (i + t) = b ! (j + t))" by blast
  from t have "map fst (opcodes_loop 0 0 (mb @ [(length a, length b, 0)])) = []
             \<or> map fst (opcodes_loop 0 0 (mb @ [(length a, length b, 0)])) = [Equal]"
    by (simp add: codes_def get_opcodes_def mb(1))
  with mb(2) show ?thesis by (rule opcodes_equal)
qed

lemma unified_diff_Nil_iff: "unified_diff a b fromfile tofile = [] \<longleftrightarrow> a = b"
proof
  assume "unified_diff a b fromfile tofile = []"
  then have "get_grouped_opcodes 3 a b = []"
    by (simp add: unified_diff_def Let_def split: if_splits)
  then show "a = b" by (rule get_grouped_opcodes_Nil)
next
  assume "a = b"
  then show "unified_diff a b fromfile tofile = []" by (simp add: unified_diff_self)
qed

lemma concat_unified_diff_Nil_iff:
  "concat (unified_diff a b fromfile tofile) = [] \<longleftrightarrow> a = b"
proof (cases "a = b")
  case True
  then show ?thesis by (simp add: unified_diff_self)
next
  case False
  then have "get_grouped_opcodes 3 a b \<noteq> []" using get_grouped_opcodes_Nil by blast
  then have "concat (unified_diff a b fromfile tofile) \<noteq> []"
    by (simp add: unified_diff_def Let_def)
  with False show ?thesis by simp
qed

lemma concat_keepends: "concat (keepends s) = s"
  by (induction s) (auto split: list.splits)

lemma keepends_inject: "keepends s = keepends t \<longleftrightarrow> s = t"
  by (metis concat_keepends)

lemma view_latest:
  assumes val: "validate_path (cwd fs) rp = Inr ap"
    and res: "smart_resolve_path fs2 path = Inr rp"
    and mk: "makedirs (abspath (cwd fs) (history_dir_of rp)) fs = Some fs0"
    and fs2: "fs2 = write_file ap cur (write_file (abspath (cwd fs) (snapshot_path rp ts)) raw fs0)"
    and ne: "abspath (cwd fs) (snapshot_path rp ts) \<noteq> ap"
    and apf: "map_of (files fs) ap \<noteq> None"
    and wd: "startswith (cwd fs) ''/''" and ts: "CHR ''/'' \<notin> set ts"
    and mono: "\<forall>n\<in>set (listdir fs (abspath (cwd fs) (history_dir_of rp))).
                 endswith n ''.snap'' \<longrightarrow> n \<le> ts @ ''.snap''"
  shows "fst (view_doc_changes path fs2)
         = Changes (concat (unified_diff (keepends (universal_newlines raw))
                              (keepends (universal_newlines cur))
                              (snapshot_label (ts @ ''.snap'')) current_label))"
proof -
  let ?A = "abspath (cwd fs) (history_dir_of rp)"
  let ?K = "abspath (cwd fs) (snapshot_path rp ts)"
  let ?name = "ts @ ''.snap''"
  have K: "?K = dir_prefix ?A @ ?name" using wd ts by (rule snapshot_key)
  have lp: "length ?A \<le> length (dir_prefix ?A)" by (simp add: dir_prefix_def)
  have lk: "length ?A < length ?K" unfolding K using lp by simp
  have lpk: "length ?K \<le> length (dir_prefix ?K)" by (simp add: dir_prefix_def)
  have npA: "\<not> prefix (dir_prefix ?K) ?A" using lk lpk by (auto dest: prefix_length_le)
  from mk have f0: "files fs0 = files fs" "cwd fs0 = cwd fs"
    and d0: "set (dirs fs0) = insert ?A (set (dirs fs))"
    and free: "\<not> list_ex (\<lambda>q. q = ?A \<or> prefix (dir_prefix q) ?A) (map fst (files fs))"
    by (auto simp: makedirs_def split: if_splits)
  have cw: "cwd fs2 = cwd fs" unfolding fs2 by (simp add: f0)
  have dr: "dirs fs2 = dirs fs0" unfolding fs2 by simp
  from apf have "ap \<in> set (map fst (files fs))"
    by (metis map_of_eq_None_iff set_map)
  then have keys: "set (map fst (files fs2)) = insert ?K (set (map fst (files fs)))"
    unfolding fs2 keys_write_file f0 by auto
  have lookK: "map_of (files fs2) ?K = Some raw"
    unfolding fs2 using ne by (simp add: write_file_lookup)
  have lookap: "map_of (files fs2) ap = Some cur"
    unfolding fs2 by (simp add: write_file_lookup)
  \<comment> \<open>the history directory is made again without effect\<close>
  have "\<not> list_ex (\<lambda>q. q = ?A \<or> prefix (dir_prefix q) ?A) (map fst (files fs2))"
    using free keys lk npA by (auto simp: list_ex_iff)
  moreover have "?A \<in> set (dirs fs2)" unfolding dr using d0 by simp
  ultimately have mk2: "makedirs ?A fs2 = Some fs2"
    by (simp add: makedirs_def)
  have eh: "ensure_history_dir rp fs2 = Some (history_dir_of rp, fs2)"
    unfolding ensure_history_dir_alt cw mk2 by simp
  \<comment> \<open>the snapshot of the call is the last of the sorted names\<close>
  have slashfree: "takeWhile (\<lambda>c. c \<noteq> CHR ''/'') ?name = ?name"
    using ts by auto
  have inl: "?name \<in> set (listdir fs2 ?A)"
  proof -
    have "?K \<in> set (map fst (files fs2)) \<union> set (dirs fs2)" using keys by simp
    moreover have "prefix (dir_prefix ?A) ?K" unfolding K by simp
    moreover have "takeWhile (\<lambda>c. c \<noteq> CHR ''/'') (drop (length (dir_prefix ?A)) ?K) = ?name"
      unfolding K using slashfree by simp
    ultimately show ?thesis unfolding set_listdir by force
  qed
  have le: "n \<le> ?name" if n: "n \<in> set (listdir fs2 ?A)" "endswith n ''.snap''" for n
  proof -
    from n(1) obtain q where q: "n \<noteq> []" "q \<in> set (map fst (files fs2)) \<union> set (dirs fs2)"
        "prefix (dir_prefix ?A) q"
        "n = takeWhile (\<lambda>c. c \<noteq> CHR ''/'') (drop (length (dir_prefix ?A)) q)"
      unfolding set_listdir by blast
    from q(2) keys dr d0 consider "q = ?K" | "q = ?A"
      | "q \<in> set (map fst (files fs)) \<union> set (dirs fs)" by auto
    then show ?thesis
    proof cases
      case 1
      with q(4) have "n = ?name" unfolding K using slashfree by simp
      then show ?thesis by simp
    next
      case 2
      with q(4) lp have "n = []" by simp
      with q(1) show ?thesis by simp
    next
      case 3
      with q(1,3,4) have "n \<in> set (listdir fs ?A)" unfolding set_listdir by blast
      with mono n(2) show ?thesis by blast
    qed
  qed
  let ?snaps = "sort (filter (\<lambda>f. endswith f ''.snap'') (listdir fs2 ?A))"
  have es: "endswith ?name ''.snap''" unfolding endswith_def by (rule suffix_appendI) simp
  have last: "last ?snaps = ?name"
    using inl es le by (intro last_sort) auto
  have "set ?snaps \<noteq> {}" using inl es by auto
  then have sne: "?snaps \<noteq> []" by (metis empty_set)
  have latest: "abspath (cwd fs) (path_join (history_dir_of rp) (last ?snaps)) = ?K"
    unfolding last snapshot_path_alt ..
  have rl1: "read_lines fs2 ?K = Some (keepends (universal_newlines raw))"
    by (simp add: read_lines_def read_text_def lookK)
  have rl2: "read_lines fs2 ap = Some (keepends (universal_newlines cur))"
    by (simp add: read_lines_def read_text_def lookap)
  have "view_doc_changes path fs2
        = (Changes (concat (unified_diff (keepends (universal_newlines raw))
                              (keepends (universal_newlines cur))
                              (snapshot_label (last ?snaps)) current_label)), fs2)"
    unfolding view_doc_changes_def res sum.case cw val eh option.case prod.case Let_def latest
    using sne rl1 rl2 by (simp add: cw latest)
  then show ?thesis unfolding last by simp
qed

text \<open>
  Claim C7, as amended. After a successful update (an append or the replacement of a
  section) at a time stamp that names the latest snapshot of the document, and when the
  path still resolves to the same document, viewing the changes returns the unified diff
  of the library between the lines of the document before the update, read from the
  snapshot of that call, and its lines now. This diff is the empty string exactly when the
  text of the document, read with its line ends translated, is the same as before the
  update.
\<close>

theorem view_after_update:
  assumes "target_document fs path = Some (rp, ap, raw)"
    and "update_knowledge_section ts path nid expected new_content fs = (msg, fs2)"
    and "msg = Appended \<or> msg = Updated a b c d"
    and "startswith (cwd fs) ''/''"
    and "CHR ''/'' \<notin> set ts"
    and "smart_resolve_path fs2 path = Inr rp"
    and "\<forall>n\<in>set (listdir fs (abspath (cwd fs) (history_dir_of rp))).
           endswith n ''.snap'' \<longrightarrow> n \<le> ts @ ''.snap''"
    and "\<not> is_dir fs (abspath (cwd fs) (snapshot_path rp ts))"
  shows "\<exists>cur. map_of (files fs2) ap = Some cur
           \<and> fst (view_doc_changes path fs2)
             = Changes (concat (unified_diff (keepends (universal_newlines raw))
                                  (keepends (universal_newlines cur))
                                  (snapshot_label (ts @ ''.snap'')) current_label))
           \<and> (fst (view_doc_changes path fs2) = Changes []
                \<longleftrightarrow> universal_newlines cur = universal_newlines raw)"
proof -
  from assms(1) have val: "validate_path (cwd fs) rp = Inr ap"
    and raw: "map_of (files fs) ap = Some raw"
    by (auto simp: target_document_def split: sum.splits)
  from update_written [OF assms(1,2,3)] obtain s fs1 cur where
    cs: "create_snapshot ts rp ap fs = (Some s, fs1)" and w: "fs2 = write_file ap cur fs1"
    by blast
  from snapshot_written [OF cs raw assms(4,5,8)] obtain fs0 where
    mk: "makedirs (abspath (cwd fs) (history_dir_of rp)) fs = Some fs0"
    and fs1: "fs1 = write_file (abspath (cwd fs) (snapshot_path rp ts)) raw fs0"
    and ne: "abspath (cwd fs) (snapshot_path rp ts) \<noteq> ap"
    by blast
  have fs2: "fs2 = write_file ap cur (write_file (abspath (cwd fs) (snapshot_path rp ts)) raw fs0)"
    unfolding w fs1 ..
  have apf: "map_of (files fs) ap \<noteq> None" using raw by simp
  have v: "fst (view_doc_changes path fs2)
         = Changes (concat (unified_diff (keepends (universal_newlines raw))
                              (keepends (universal_newlines cur))
                              (snapshot_label (ts @ ''.snap'')) current_label))"
    using val assms(6) mk fs2 ne apf assms(4,5,7) by (rule view_latest)
  have c: "map_of (files fs2) ap = Some cur"
    unfolding w by (simp add: write_file_lookup)
  have "fst (view_doc_changes path fs2) = Changes []
        \<longleftrightarrow> universal_newlines cur = universal_newlines raw"
    unfolding v message.inject concat_unified_diff_Nil_iff keepends_inject by (rule eq_commute)
  with v c show ?thesis by blast
qed

theorem view_after_update_witness:
  "fst (view_doc_changes ''libs/a.md''
          (snd (update_knowledge_section ''20260102_000000'' ''libs/a.md'' ''1.1'' ''b''
                  ''## B2\<newline>w'' example_fs_snap)))
   = Changes (''--- snapshot (20260102_000000.snap)+++ current@@ -1,6 +1,6 @@''
              @ '' # A\<newline> x\<newline>-## B\<newline>-y\<newline>+## B2\<newline>+w\<newline> ## C\<newline> z\<newline>'')"
proof -
  let ?raw = "''# A\<newline>x\<newline>## B\<newline>y\<newline>## C\<newline>z\<newline>''"
  let ?u = "update_knowledge_section ''20260102_000000'' ''libs/a.md'' ''1.1'' ''b''
              ''## B2\<newline>w'' example_fs_snap"
  have h1: "target_document example_fs_snap ''libs/a.md''
            = Some (''libs/a.md'', ''/kb/libs/a.md'', ?raw)"
    by code_simp
  have h2: "?u = (fst ?u, snd ?u)" by simp
  have h3: "fst ?u = Appended \<or> fst ?u = Updated ''1.1'' ''b'' 2 2" by code_simp
  have h4: "startswith (cwd example_fs_snap) ''/''" by code_simp
  have h5: "CHR ''/'' \<notin> set ''20260102_000000''" by code_simp
  have h6: "smart_resolve_path (snd ?u) ''libs/a.md'' = Inr ''libs/a.md''" by code_simp
  have h7: "\<forall>n\<in>set (listdir example_fs_snap
                       (abspath (cwd example_fs_snap) (history_dir_of ''libs/a.md''))).
              endswith n ''.snap'' \<longrightarrow> n \<le> ''20260102_000000'' @ ''.snap''"
    by code_simp
  have h8: "\<not> is_dir example_fs_snap
              (abspath (cwd example_fs_snap) (snapshot_path ''libs/a.md'' ''20260102_000000''))"
    by code_simp
  have cur: "map_of (files (snd ?u)) ''/kb/libs/a.md''
             = Some ''# A\<newline>x\<newline>## B2\<newline>w\<newline>## C\<newline>z\<newline>''"
    by code_simp
  have d: "concat (unified_diff (keepends (universal_newlines ?raw))
                    (keepends (universal_newlines ''# A\<newline>x\<newline>## B2\<newline>w\<newline>## C\<newline>z\<newline>''))
                    (snapshot_label (''20260102_000000'' @ ''.snap'')) current_label)
           = ''--- snapshot (20260102_000000.snap)+++ current@@ -1,6 +1,6 @@''
              @ '' # A\<newline> x\<newline>-## B\<newline>-y\<newline>+## B2\<newline>+w\<newline> ## C\<newline> z\<newline>''"
    by code_simp
  from view_after_update [OF h1 h2 h3 h4 h5 h6 h7 h8]
  obtain c where c: "map_of (files (snd ?u)) ''/kb/libs/a.md'' = Some c"
    "fst (view_doc_changes ''libs/a.md'' (snd ?u))
     = Changes (concat (unified_diff (keepends (universal_newlines ?raw))
                          (keepends (universal_newlines c))
                          (snapshot_label (''20260102_000000'' @ ''.snap'')) current_label))"
    by blast
  from c(1) cur have "c = ''# A\<newline>x\<newline>## B2\<newline>w\<newline>## C\<newline>z\<newline>''" by (simp only: option.inject)
  with c(2) d show ?thesis by (simp only:)
qed

theorem view_after_update_counterexample:
  "fst (update_knowledge_section ''20260101_000000'' ''libs/a.md'' ''1.1'' ''b'' ''## B\<newline>y''
          example_fs) = Updated ''1.1'' ''b'' 2 2
   \<and> fst (view_doc_changes ''libs/a.md''
            (snd (update_knowledge_section ''20260101_000000'' ''libs/a.md'' ''1.1'' ''b''
                    ''## B\<newline>y'' example_fs)))
     = Changes []"
  by code_simp

section \<open>The snapshot of a failing call\<close>

lemma listdir_after_snapshot:
  assumes mk: "makedirs A fs = Some fs0" and K: "K = dir_prefix A @ name"
    and nm: "CHR ''/'' \<notin> set name" "name \<noteq> []"
  shows "set (listdir (write_file K raw fs0) A) = insert name (set (listdir fs A))"
proof -
  from mk have f0: "files fs0 = files fs"
    and d0: "set (dirs fs0) = insert A (set (dirs fs))"
    by (auto simp: makedirs_def split: if_splits)
  have lp: "length A \<le> length (dir_prefix A)" by (simp add: dir_prefix_def)
  have keys: "set (map fst (files (write_file K raw fs0))) = insert K (set (map fst (files fs)))"
    unfolding keys_write_file f0 ..
  have tw: "takeWhile (\<lambda>c. c \<noteq> CHR ''/'') (drop (length (dir_prefix A)) K) = name"
    unfolding K using nm(1) by auto
  have pk: "prefix (dir_prefix A) K" unfolding K by simp
  have ta: "takeWhile (\<lambda>c. c \<noteq> CHR ''/'') (drop (length (dir_prefix A)) A) = []"
    using lp by simp
  show ?thesis
  proof (intro set_eqI iffI)
    fix n
    assume "n \<in> set (listdir (write_file K raw fs0) A)"
    then obtain q where q: "n \<noteq> []"
        "q \<in> set (map fst (files (write_file K raw fs0))) \<union> set (dirs (write_file K raw fs0))"
        "prefix (dir_prefix A) q"
        "n = takeWhile (\<lambda>c. c \<noteq> CHR ''/'') (drop (length (dir_prefix A)) q)"
      unfolding set_listdir by blast
    from q(2) keys d0 consider "q = K" | "q = A"
      | "q \<in> set (map fst (files fs)) \<union> set (dirs fs)" by auto
    then show "n \<in> insert name (set (listdir fs A))"
    proof cases
      case 1
      with q(4) tw show ?thesis by simp
    next
      case 2
      with q(4) ta q(1) show ?thesis by simp
    next
      case 3
      with q(1,3,4) have "n \<in> set (listdir fs A)" unfolding set_listdir by blast
      then show ?thesis by simp
    qed
  next
    fix n
    assume "n \<in> insert name (set (listdir fs A))"
    then consider "n = name" | "n \<in> set (listdir fs A)" by auto
    then show "n \<in> set (listdir (write_file K raw fs0) A)"
    proof cases
      case 1
      have "K \<in> set (map fst (files (write_file K raw fs0))) \<union> set (dirs (write_file K raw fs0))"
        using keys by simp
      with 1 nm(2) pk tw show ?thesis unfolding set_listdir by force
    next
      case 2
      then obtain q where q: "n \<noteq> []" "q \<in> set (map fst (files fs)) \<union> set (dirs fs)"
          "prefix (dir_prefix A) q"
          "n = takeWhile (\<lambda>c. c \<noteq> CHR ''/'') (drop (length (dir_prefix A)) q)"
        unfolding set_listdir by blast
      from q(2) keys d0
      have "q \<in> set (map fst (files (write_file K raw fs0))) \<union> set (dirs (write_file K raw fs0))"
        by auto
      with q(1,3,4) show ?thesis unfolding set_listdir by blast
    qed
  qed
qed

text \<open>
  Claim C8, as amended. The snapshot is written before the scan and the lock check: a
  call on an existing document that returns the lock mismatch or the section-not-found
  message leaves the file system that \<open>_create_snapshot\<close> produced. In it the snapshot
  file of the call holds the text of the document, no other file differs from before,
  and the document is as it was. The listing of the history directory gains the name of
  that snapshot when no snapshot of the same time stamp was there (and no directory
  stands at its path); a snapshot of the same second is written over instead, so that
  the history does not always gain an entry (see the counterexample).
\<close>

theorem snapshot_on_failure:
  assumes "target_document fs path = Some (rp, ap, raw)"
    and "update_knowledge_section ts path nid expected new_content fs = (msg, fs')"
    and "msg = SectionNotFound x \<or> msg = LockMismatch x y z"
  shows "create_snapshot ts rp ap fs = (Some (Some (snapshot_path rp ts)), fs')
       \<and> map_of (files fs') ap = Some raw
       \<and> (\<exists>k. k \<noteq> ap
              \<and> (k = abspath (cwd fs) (snapshot_path rp ts)
                  \<or> k = path_join (abspath (cwd fs) (snapshot_path rp ts)) (basename ap))
              \<and> map_of (files fs') k = Some raw
              \<and> (\<forall>k'. k' \<noteq> k \<longrightarrow> map_of (files fs') k' = map_of (files fs) k'))
       \<and> (startswith (cwd fs) ''/'' \<and> CHR ''/'' \<notin> set ts
            \<and> \<not> is_dir fs (abspath (cwd fs) (snapshot_path rp ts))
            \<and> ts @ ''.snap'' \<notin> set (listdir fs (abspath (cwd fs) (history_dir_of rp)))
          \<longrightarrow> set (listdir fs' (abspath (cwd fs) (history_dir_of rp)))
                = insert (ts @ ''.snap'') (set (listdir fs (abspath (cwd fs) (history_dir_of rp))))
              \<and> map_of (files fs') (abspath (cwd fs) (snapshot_path rp ts)) = Some raw)"
proof -
  from assms(1) have r: "smart_resolve_path fs path = Inr rp" "validate_path (cwd fs) rp = Inr ap"
    "map_of (files fs) ap = Some raw"
    by (auto simp: target_document_def split: sum.splits)
  then have ex: "path_exists fs ap" by (simp add: path_exists_def is_file_def)
  obtain so fs1 where cs: "create_snapshot ts rp ap fs = (so, fs1)"
    by (cases "create_snapshot ts rp ap fs")
  have "so \<noteq> None"
  proof
    assume "so = None"
    with cs r ex have "update_knowledge_section ts path nid expected new_content fs
                       = (UpdateFailed, fs1)"
      by (simp add: update_knowledge_section_def)
    with assms(2,3) show False by auto
  qed
  then obtain s where s: "so = Some s" by auto
  note eff = create_snapshot_effect [OF cs [unfolded s] r(3)]
  note upd = update_on_document [OF assms(1) cs [unfolded s], of nid expected new_content]
  have na: "nid \<noteq> ''APPEND''"
  proof
    assume "nid = ''APPEND''"
    with upd assms(2,3) show False by auto
  qed
  obtain m c where rs: "replace_section (universal_newlines raw) nid expected new_content = (m, c)"
    by (cases "replace_section (universal_newlines raw) nid expected new_content")
  from upd na rs assms(2) have m: "m = msg" by (auto split: option.splits)
  with rs assms(3) have "c = None" using replace_section_failure by blast
  with upd na rs assms(2) have fs': "fs' = fs1" by simp
  from eff cs s fs' have first: "create_snapshot ts rp ap fs = (Some (Some (snapshot_path rp ts)), fs')"
    by simp
  have gain: "set (listdir fs' (abspath (cwd fs) (history_dir_of rp)))
                = insert (ts @ ''.snap'') (set (listdir fs (abspath (cwd fs) (history_dir_of rp))))
              \<and> map_of (files fs') (abspath (cwd fs) (snapshot_path rp ts)) = Some raw"
    if wd: "startswith (cwd fs) ''/''" and ts: "CHR ''/'' \<notin> set ts"
      and nd: "\<not> is_dir fs (abspath (cwd fs) (snapshot_path rp ts))"
  proof -
    from snapshot_written [OF first r(3) wd ts nd] obtain fs0 where
      mk: "makedirs (abspath (cwd fs) (history_dir_of rp)) fs = Some fs0"
      and w: "fs' = write_file (abspath (cwd fs) (snapshot_path rp ts)) raw fs0"
      by blast
    have K: "abspath (cwd fs) (snapshot_path rp ts)
             = dir_prefix (abspath (cwd fs) (history_dir_of rp)) @ ts @ ''.snap''"
      using wd ts by (rule snapshot_key)
    have "set (listdir fs' (abspath (cwd fs) (history_dir_of rp)))
          = insert (ts @ ''.snap'') (set (listdir fs (abspath (cwd fs) (history_dir_of rp))))"
      unfolding w using mk K ts by (intro listdir_after_snapshot) auto
    moreover have "map_of (files fs') (abspath (cwd fs) (snapshot_path rp ts)) = Some raw"
      unfolding w by (simp add: write_file_lookup)
    ultimately show ?thesis by simp
  qed
  from eff fs' first gain show ?thesis by (metis r(3))
qed

theorem snapshot_on_failure_witness:
  "create_snapshot ''20260101_000000'' ''libs/a.md'' ''/kb/libs/a.md'' example_fs
     = (Some (Some (snapshot_path ''libs/a.md'' ''20260101_000000'')), example_fs_snap)
   \<and> map_of (files example_fs_snap) ''/kb/libs/a.md''
     = Some ''# A\<newline>x\<newline>## B\<newline>y\<newline>## C\<newline>z\<newline>''
   \<and> set (listdir example_fs_snap (abspath (cwd example_fs) (history_dir_of ''libs/a.md'')))
     = insert (''20260101_000000'' @ ''.snap'')
         (set (listdir example_fs (abspath (cwd example_fs) (history_dir_of ''libs/a.md''))))"
proof -
  let ?raw = "''# A\<newline>x\<newline>## B\<newline>y\<newline>## C\<newline>z\<newline>''"
  have h1: "target_document example_fs ''libs/a.md''
            = Some (''libs/a.md'', ''/kb/libs/a.md'', ?raw)"
    by code_simp
  have h2: "update_knowledge_section ''20260101_000000'' ''libs/a.md'' ''1.1'' ''Core'' ''## New''
              example_fs = (LockMismatch ''1.1'' ''B'' ''Core'', example_fs_snap)"
    by code_simp
  have h3: "LockMismatch ''1.1'' ''B'' ''Core'' = SectionNotFound ''1.1''
            \<or> LockMismatch ''1.1'' ''B'' ''Core'' = LockMismatch ''1.1'' ''B'' ''Core''"
    by simp
  have h4: "startswith (cwd example_fs) ''/''" by code_simp
  have h5: "CHR ''/'' \<notin> set ''20260101_000000''" by code_simp
  have h6: "\<not> is_dir example_fs
              (abspath (cwd example_fs) (snapshot_path ''libs/a.md'' ''20260101_000000''))"
    by code_simp
  have h7: "''20260101_000000'' @ ''.snap''
            \<notin> set (listdir example_fs (abspath (cwd example_fs) (history_dir_of ''libs/a.md'')))"
    by code_simp
  show ?thesis using snapshot_on_failure [OF h1 h2 h3] h4 h5 h6 h7 by blast
qed

theorem snapshot_on_failure_counterexample:
  "update_knowledge_section ''20260101_000000'' ''libs/a.md'' ''1.1'' ''Core'' ''## New''
     example_fs_snap
   = (LockMismatch ''1.1'' ''B'' ''Core'', example_fs_snap)"
  by code_simp

end
